theory Spec2Isabelle
  imports Complex_Main "HOL-Library.Word" "HOL-Library.Sublist"
begin

section \<open>JavaScript strings and numbers\<close>

text \<open>
  A JavaScript string is a sequence of UTF-16 code units, so the model uses lists of 16-bit
  words. \<open>js\<close> embeds an ASCII literal of the source. \<open>Number_toString\<close> is
  \<^verbatim>\<open>Number.prototype.toString\<close> on integers (the readings of \<^verbatim>\<open>Date.now()\<close>),
  which prints the decimal digits, with a leading minus sign for a negative value.
\<close>

type_synonym code_unit = "16 word"
type_synonym jsstring = "code_unit list"

definition js :: "string \<Rightarrow> jsstring" where
  "js s = map of_char s"

definition digit_char :: "nat \<Rightarrow> code_unit" where
  "digit_char k = of_nat (48 + k)"

fun digits :: "nat \<Rightarrow> jsstring" where
  "digits n = (if n < 10 then [digit_char n] else digits (n div 10) @ [digit_char (n mod 10)])"

definition Number_toString :: "int \<Rightarrow> jsstring" where
  "Number_toString n = (if n < 0 then 0x2D # digits (nat (- n)) else digits (nat n))"

section \<open>JSON text\<close>

text \<open>
  The photo sequence is persisted as JSON text, so \<^verbatim>\<open>JSON.parse\<close> and
  \<^verbatim>\<open>JSON.stringify\<close> are modelled on text. \<open>JSON_parse\<close> is a recursive-descent parser
  for the whole JSON grammar (white space, the three literals, numbers with fraction and
  exponent, strings with their escapes, arrays and objects); a text outside the grammar is
  the \<open>SyntaxError\<close> that \<^verbatim>\<open>JSON.parse\<close> throws. \<open>JNumber q\<close> stands for a number
  literal that denotes the rational \<open>q\<close>. The number JavaScript holds for it is \<open>q\<close> rounded to
  the nearest double: it is \<open>q\<close> itself when \<open>q\<close> is an integer of magnitude at most \<open>2^53\<close>
  (\<open>safe_integer\<close> below), as every reading of \<^verbatim>\<open>Date.now()\<close> is, and the model computes
  no rounding for the other literals.
\<close>

datatype json = JNull | JBool bool | JNumber rat | JString jsstring
  | JArray "json list" | JObject "(jsstring \<times> json) list"

definition is_ws :: "code_unit \<Rightarrow> bool" where
  "is_ws c \<longleftrightarrow> c = 0x20 \<or> c = 0x09 \<or> c = 0x0A \<or> c = 0x0D"

definition skip_ws :: "jsstring \<Rightarrow> jsstring" where
  "skip_ws = dropWhile is_ws"

definition is_digit :: "code_unit \<Rightarrow> bool" where
  "is_digit c \<longleftrightarrow> 0x30 \<le> c \<and> c \<le> 0x39"

definition digit_val :: "code_unit \<Rightarrow> nat" where
  "digit_val c = unat c - 48"

definition nat_of_digits :: "jsstring \<Rightarrow> nat" where
  "nat_of_digits ds = foldl (\<lambda>a c. 10 * a + digit_val c) 0 ds"

text \<open>String escapes. \<open>unicode_escape\<close> writes the four lower-case hexadecimal digits.\<close>

definition hex_val :: "code_unit \<Rightarrow> nat option" where
  "hex_val c =
     (if 0x30 \<le> c \<and> c \<le> 0x39 then Some (unat c - 0x30)
      else if 0x41 \<le> c \<and> c \<le> 0x46 then Some (unat c - 0x41 + 10)
      else if 0x61 \<le> c \<and> c \<le> 0x66 then Some (unat c - 0x61 + 10)
      else None)"

definition hex_digit :: "nat \<Rightarrow> code_unit" where
  "hex_digit k = (if k < 10 then of_nat (0x30 + k) else of_nat (0x61 + (k - 10)))"

definition unicode_escape :: "code_unit \<Rightarrow> jsstring" where
  "unicode_escape c =
     (let n = unat c
      in [0x5C, 0x75, hex_digit (n div 4096), hex_digit (n div 256 mod 16),
          hex_digit (n div 16 mod 16), hex_digit (n mod 16)])"

definition hex4 :: "code_unit \<Rightarrow> code_unit \<Rightarrow> code_unit \<Rightarrow> code_unit \<Rightarrow> code_unit option" where
  "hex4 a b c d =
     (case (hex_val a, hex_val b, hex_val c, hex_val d) of
        (Some w, Some x, Some y, Some z) \<Rightarrow> Some (of_nat (((w * 16 + x) * 16 + y) * 16 + z))
      | _ \<Rightarrow> None)"

definition is_high_surrogate :: "code_unit \<Rightarrow> bool" where
  "is_high_surrogate c \<longleftrightarrow> 0xD800 \<le> c \<and> c \<le> 0xDBFF"

definition is_low_surrogate :: "code_unit \<Rightarrow> bool" where
  "is_low_surrogate c \<longleftrightarrow> 0xDC00 \<le> c \<and> c \<le> 0xDFFF"

text \<open>
  \<^verbatim>\<open>QuoteJSONString\<close> of ECMAScript: the short escapes, a hexadecimal escape for the other
  control characters and for a surrogate that is not part of a pair, every other code unit as
  it is.
\<close>

definition escape_unit :: "code_unit \<Rightarrow> jsstring" where
  "escape_unit c =
     (if c = 0x08 then [0x5C, 0x62]
      else if c = 0x09 then [0x5C, 0x74]
      else if c = 0x0A then [0x5C, 0x6E]
      else if c = 0x0C then [0x5C, 0x66]
      else if c = 0x0D then [0x5C, 0x72]
      else if c = 0x22 then [0x5C, 0x22]
      else if c = 0x5C then [0x5C, 0x5C]
      else if c < 0x20 \<or> is_high_surrogate c \<or> is_low_surrogate c then unicode_escape c
      else [c])"

fun quote_body :: "jsstring \<Rightarrow> jsstring" where
  "quote_body [] = []"
| "quote_body [c] = escape_unit c"
| "quote_body (c # d # cs) =
     (if is_high_surrogate c \<and> is_low_surrogate d then c # d # quote_body cs
      else escape_unit c @ quote_body (d # cs))"

definition QuoteJSONString :: "jsstring \<Rightarrow> jsstring" where
  "QuoteJSONString s = 0x22 # quote_body s @ [0x22]"

text \<open>
  Reading a string after its opening quote: the result is the string and the text after the
  closing quote. An unescaped control character, an unknown escape and a missing closing
  quote are errors.
\<close>

definition simple_escape :: "code_unit \<Rightarrow> code_unit option" where
  "simple_escape e =
     (if e = 0x22 then Some 0x22
      else if e = 0x5C then Some 0x5C
      else if e = 0x2F then Some 0x2F
      else if e = 0x62 then Some 0x08
      else if e = 0x66 then Some 0x0C
      else if e = 0x6E then Some 0x0A
      else if e = 0x72 then Some 0x0D
      else if e = 0x74 then Some 0x09
      else None)"

definition cons_result :: "code_unit \<Rightarrow> (jsstring \<times> jsstring) option \<Rightarrow> (jsstring \<times> jsstring) option" where
  "cons_result u r = (case r of None \<Rightarrow> None | Some (s, rest) \<Rightarrow> Some (u # s, rest))"

fun parse_string_body :: "jsstring \<Rightarrow> (jsstring \<times> jsstring) option" where
  "parse_string_body [] = None"
| "parse_string_body (c # cs) =
     (if c = 0x22 then Some ([], cs)
      else if c = 0x5C then
        (case cs of
           [] \<Rightarrow> None
         | e # es \<Rightarrow>
             if e = 0x75 then
               (case es of
                  h1 # h2 # h3 # h4 # rest \<Rightarrow>
                    (case hex4 h1 h2 h3 h4 of
                       None \<Rightarrow> None
                     | Some u \<Rightarrow> cons_result u (parse_string_body rest))
                | _ \<Rightarrow> None)
             else
               (case simple_escape e of
                  None \<Rightarrow> None
                | Some u \<Rightarrow> cons_result u (parse_string_body es)))
      else if c < 0x20 then None
      else cons_result c (parse_string_body cs))"


text \<open>
  Numbers: an optional minus sign, an integer part without a leading zero, an optional
  fraction and an optional exponent.
\<close>

definition parse_fraction :: "jsstring \<Rightarrow> (rat \<times> jsstring) option" where
  "parse_fraction cs =
     (case cs of
        [] \<Rightarrow> Some (0, [])
      | c # r \<Rightarrow>
          if c = 0x2E then
            (let ds = takeWhile is_digit r
             in if ds = [] then None
                else Some (of_nat (nat_of_digits ds) / 10 ^ length ds, dropWhile is_digit r))
          else Some (0, cs))"

definition parse_exponent :: "jsstring \<Rightarrow> (int \<times> jsstring) option" where
  "parse_exponent cs =
     (case cs of
        [] \<Rightarrow> Some (0, [])
      | c # r \<Rightarrow>
          if c = 0x65 \<or> c = 0x45 then
            (let neg = (case r of s # _ \<Rightarrow> s = 0x2D | [] \<Rightarrow> False);
                 r1 = (case r of s # r' \<Rightarrow> if s = 0x2D \<or> s = 0x2B then r' else r | [] \<Rightarrow> r);
                 ds = takeWhile is_digit r1
             in if ds = [] then None
                else Some ((if neg then - int (nat_of_digits ds) else int (nat_of_digits ds)),
                           dropWhile is_digit r1))
          else Some (0, cs))"

definition scale10 :: "rat \<Rightarrow> int \<Rightarrow> rat" where
  "scale10 q e = (if 0 \<le> e then q * 10 ^ nat e else q / 10 ^ nat (- e))"

definition parse_number :: "jsstring \<Rightarrow> (rat \<times> jsstring) option" where
  "parse_number cs =
     (let neg = (case cs of c # _ \<Rightarrow> c = 0x2D | [] \<Rightarrow> False);
          cs1 = (if neg then tl cs else cs);
          ip = takeWhile is_digit cs1
      in if ip = [] \<or> (1 < length ip \<and> hd ip = 0x30) then None
         else
           (case parse_fraction (dropWhile is_digit cs1) of
              None \<Rightarrow> None
            | Some (fr, cs3) \<Rightarrow>
                (case parse_exponent cs3 of
                   None \<Rightarrow> None
                 | Some (ex, cs4) \<Rightarrow>
                     Some (scale10 ((if neg then - 1 else 1) * (of_nat (nat_of_digits ip) + fr)) ex,
                           cs4))))"


definition parse_literal :: "jsstring \<Rightarrow> (json \<times> jsstring) option" where
  "parse_literal cs =
     (if take 4 cs = js ''true'' then Some (JBool True, drop 4 cs)
      else if take 5 cs = js ''false'' then Some (JBool False, drop 5 cs)
      else if take 4 cs = js ''null'' then Some (JNull, drop 4 cs)
      else None)"

text \<open>
  An object keeps, for a key that occurs more than once, the position of the first occurrence
  and the last one's member. The three parsers are defined together;
  their first argument bounds the number of nested calls, and \<open>JSON_parse\<close> supplies a
  bound computed from the length of the text, so that it is a total function; the bound is
  large enough for every text (\<open>JSON_parse_SyntaxError\<close> below).
\<close>

definition first_member :: "jsstring \<Rightarrow> json \<Rightarrow> (jsstring \<times> json) list \<Rightarrow> (jsstring \<times> json) list" where
  "first_member k v ms =
     (case map_of ms k of
        None \<Rightarrow> (k, v) # ms
      | Some v' \<Rightarrow> (k, v') # filter (\<lambda>m. fst m \<noteq> k) ms)"

fun parse_value :: "nat \<Rightarrow> jsstring \<Rightarrow> (json \<times> jsstring) option"
  and parse_elements :: "nat \<Rightarrow> jsstring \<Rightarrow> (json list \<times> jsstring) option"
  and parse_members :: "nat \<Rightarrow> jsstring \<Rightarrow> ((jsstring \<times> json) list \<times> jsstring) option"
where
  "parse_value 0 cs = None"
| "parse_value (Suc n) cs =
     (case skip_ws cs of
        [] \<Rightarrow> None
      | c # rest \<Rightarrow>
          if c = 0x5B then
            (case skip_ws rest of
               [] \<Rightarrow> None
             | d # rest' \<Rightarrow>
                 if d = 0x5D then Some (JArray [], rest')
                 else (case parse_elements n rest of
                         None \<Rightarrow> None
                       | Some (vs, r) \<Rightarrow> Some (JArray vs, r)))
          else if c = 0x7B then
            (case skip_ws rest of
               [] \<Rightarrow> None
             | d # rest' \<Rightarrow>
                 if d = 0x7D then Some (JObject [], rest')
                 else (case parse_members n rest of
                         None \<Rightarrow> None
                       | Some (ms, r) \<Rightarrow> Some (JObject ms, r)))
          else if c = 0x22 then
            (case parse_string_body rest of
               None \<Rightarrow> None
             | Some (s, r) \<Rightarrow> Some (JString s, r))
          else if c = 0x2D \<or> is_digit c then
            (case parse_number (c # rest) of
               None \<Rightarrow> None
             | Some (q, r) \<Rightarrow> Some (JNumber q, r))
          else parse_literal (c # rest))"
| "parse_elements 0 cs = None"
| "parse_elements (Suc n) cs =
     (case parse_value n cs of
        None \<Rightarrow> None
      | Some (v, rest) \<Rightarrow>
          (case skip_ws rest of
             [] \<Rightarrow> None
           | c # rest' \<Rightarrow>
               if c = 0x2C then
                 (case parse_elements n rest' of
                    None \<Rightarrow> None
                  | Some (vs, r) \<Rightarrow> Some (v # vs, r))
               else if c = 0x5D then Some ([v], rest')
               else None))"
| "parse_members 0 cs = None"
| "parse_members (Suc n) cs =
     (case skip_ws cs of
        [] \<Rightarrow> None
      | q # rest \<Rightarrow>
          if q \<noteq> 0x22 then None
          else
            (case parse_string_body rest of
               None \<Rightarrow> None
             | Some (k, rest1) \<Rightarrow>
                 (case skip_ws rest1 of
                    [] \<Rightarrow> None
                  | c # rest2 \<Rightarrow>
                      if c \<noteq> 0x3A then None
                      else
                        (case parse_value n rest2 of
                           None \<Rightarrow> None
                         | Some (v, rest3) \<Rightarrow>
                             (case skip_ws rest3 of
                                [] \<Rightarrow> None
                              | d # rest4 \<Rightarrow>
                                  if d = 0x2C then
                                    (case parse_members n rest4 of
                                       None \<Rightarrow> None
                                     | Some (ms, r) \<Rightarrow> Some (first_member k v ms, r))
                                  else if d = 0x7D then Some ([(k, v)], rest4)
                                  else None)))))"

datatype js_error = SyntaxError | SecurityError | QuotaExceededError | TypeError

definition JSON_parse :: "jsstring \<Rightarrow> js_error + json" where
  "JSON_parse s =
     (case parse_value (Suc (2 * length s)) s of
        None \<Rightarrow> Inl SyntaxError
      | Some (v, rest) \<Rightarrow> if skip_ws rest = [] then Inr v else Inl SyntaxError)"



section \<open>Photos and their persisted form\<close>

text \<open>
  \<^verbatim>\<open>interface Photo { id: string; dataUrl: string; timestamp: number }\<close>. The field
  \<^verbatim>\<open>id\<close> is called \<open>id_photo\<close> here, since \<open>id\<close> is the identity function of HOL.
  A time stamp is a reading of \<^verbatim>\<open>Date.now()\<close>, an integer number of milliseconds.
\<close>

record photo =
  id_photo :: jsstring
  dataUrl :: jsstring
  timestamp :: int

text \<open>
  \<^verbatim>\<open>JSON.stringify\<close> at the type \<^verbatim>\<open>Photo[]\<close>, the only type the application passes to
  it: an array of objects with the members \<^verbatim>\<open>id\<close>, \<^verbatim>\<open>dataUrl\<close> and \<^verbatim>\<open>timestamp\<close> in
  creation order, without white space.
\<close>

fun join_comma :: "jsstring list \<Rightarrow> jsstring" where
  "join_comma [] = []"
| "join_comma [x] = x"
| "join_comma (x # y # zs) = x @ 0x2C # join_comma (y # zs)"

definition SerializeJSONProperty :: "jsstring \<times> jsstring \<Rightarrow> jsstring" where
  "SerializeJSONProperty m = QuoteJSONString (fst m) @ 0x3A # snd m"

definition SerializeJSONObject :: "(jsstring \<times> jsstring) list \<Rightarrow> jsstring" where
  "SerializeJSONObject ms = 0x7B # join_comma (map SerializeJSONProperty ms) @ [0x7D]"

definition SerializeJSONArray :: "jsstring list \<Rightarrow> jsstring" where
  "SerializeJSONArray es = 0x5B # join_comma es @ [0x5D]"

definition stringify_photo :: "photo \<Rightarrow> jsstring" where
  "stringify_photo p =
     SerializeJSONObject
       [(js ''id'', QuoteJSONString (id_photo p)),
        (js ''dataUrl'', QuoteJSONString (dataUrl p)),
        (js ''timestamp'', Number_toString (timestamp p))]"

definition JSON_stringify :: "photo list \<Rightarrow> jsstring" where
  "JSON_stringify ps = SerializeJSONArray (map stringify_photo ps)"

text \<open>
  The value that a photo sequence denotes, and the reading of a parsed value as a photo
  sequence. \<^verbatim>\<open>JSON.parse\<close> returns \<^verbatim>\<open>any\<close>, and the application stores it unchecked.
  \<open>photo_of_json\<close> reads from an object the three members the application reads
  (\<^verbatim>\<open>id\<close>, \<^verbatim>\<open>dataUrl\<close>, \<^verbatim>\<open>timestamp\<close>), by their names: it is a photo when the first two
  are strings and the third is an integer. The order of the members and any further member
  play no part, as no expression of the application other than \<^verbatim>\<open>JSON.stringify\<close> reads
  them.
\<close>

definition photo_to_json :: "photo \<Rightarrow> json" where
  "photo_to_json p =
     JObject [(js ''id'', JString (id_photo p)),
              (js ''dataUrl'', JString (dataUrl p)),
              (js ''timestamp'', JNumber (of_int (timestamp p)))]"

definition photos_to_json :: "photo list \<Rightarrow> json" where
  "photos_to_json ps = JArray (map photo_to_json ps)"

definition as_string :: "json \<Rightarrow> jsstring option" where
  "as_string v = (case v of JString s \<Rightarrow> Some s | _ \<Rightarrow> None)"

definition as_integer :: "json \<Rightarrow> int option" where
  "as_integer v =
     (case v of
        JNumber q \<Rightarrow> if of_int \<lfloor>q\<rfloor> = q then Some \<lfloor>q\<rfloor> else None
      | _ \<Rightarrow> None)"

definition photo_of_json :: "json \<Rightarrow> photo option" where
  "photo_of_json v =
     (case v of
        JObject ms \<Rightarrow>
          (case (map_of ms (js ''id''), map_of ms (js ''dataUrl''), map_of ms (js ''timestamp'')) of
             (Some a, Some b, Some c) \<Rightarrow>
               (case (as_string a, as_string b, as_integer c) of
                  (Some i, Some d, Some t) \<Rightarrow> Some \<lparr>id_photo = i, dataUrl = d, timestamp = t\<rparr>
                | _ \<Rightarrow> None)
           | _ \<Rightarrow> None)
      | _ \<Rightarrow> None)"

definition photos_of_json :: "json \<Rightarrow> photo list option" where
  "photos_of_json v =
     (case v of JArray vs \<Rightarrow> those (map photo_of_json vs) | _ \<Rightarrow> None)"

text \<open>The integers that a double holds exactly, whatever their neighbours.\<close>

definition safe_integer :: "int \<Rightarrow> bool" where
  "safe_integer n \<longleftrightarrow> \<bar>n\<bar> \<le> 2 ^ 53"

text \<open>
  The expression \<^verbatim>\<open>photos.length\<close> on a value that \<^verbatim>\<open>JSON.parse\<close> has returned: reading a
  property of \<^verbatim>\<open>null\<close> throws a \<^verbatim>\<open>TypeError\<close>; an array and a string have their length;
  an object has the member of that name, if any; a Boolean and a number have none.
\<close>

definition photos_length :: "json \<Rightarrow> js_error + json option" where
  "photos_length v =
     (case v of
        JNull \<Rightarrow> Inl TypeError
      | JBool b \<Rightarrow> Inr None
      | JNumber q \<Rightarrow> Inr None
      | JString s \<Rightarrow> Inr (Some (JNumber (of_nat (length s))))
      | JArray vs \<Rightarrow> Inr (Some (JNumber (of_nat (length vs))))
      | JObject ms \<Rightarrow> Inr (map_of ms (js ''length'')))"

section \<open>The application\<close>

subsection \<open>Constants\<close>

definition STORAGE_KEY :: jsstring where
  "STORAGE_KEY = js ''retro-polaroid-photos''"

definition MAX_STORED_PHOTOS :: nat where
  "MAX_STORED_PHOTOS = 50"

definition DEVELOP_TIME_MS :: nat where
  "DEVELOP_TIME_MS = 1800"

subsection \<open>The canvas and \<^verbatim>\<open>processImage\<close>\<close>

text \<open>
  A video element is read through \<^verbatim>\<open>videoWidth\<close> and \<^verbatim>\<open>videoHeight\<close> (unsigned integers of
  the DOM) and through its current frame. A canvas is its size and the drawing calls made on
  its 2D context, in order. Coordinates are JavaScript numbers; they are rationals here, so
  that the halves of the crop offsets are exact.
\<close>

record video =
  videoWidth :: nat
  videoHeight :: nat

datatype image_source = VideoFrame video | DecodedImage jsstring

datatype draw_op =
    DrawImage image_source rat rat rat rat rat rat rat rat
  | DrawImageAt image_source rat rat rat rat
  | SetGlobalCompositeOperation jsstring
  | SetFillStyle jsstring
  | SetFillGradient rat rat rat rat "(rat \<times> jsstring) list"
  | FillRect rat rat rat rat
  | SetStrokeStyle jsstring
  | SetLineWidth rat
  | StrokeRect rat rat rat rat
  | SetFont jsstring
  | SetTextAlign jsstring
  | SetTextBaseline jsstring
  | SaveState
  | Translate rat rat
  | Rotate rat
  | FillText jsstring rat rat
  | RestoreState

record canvas =
  width :: nat
  height :: nat
  ops :: "draw_op list"

text \<open>
  What the browser decides: whether \<^verbatim>\<open>canvas.getContext('2d')\<close> returns a context, the
  encoding \<^verbatim>\<open>canvas.toDataURL(type, quality)\<close> of a canvas (the quality is absent for PNG),
  whether an image loads from a data URL, the text \<^verbatim>\<open>toLocaleDateString\<close> prints for a time
  stamp, and whether the clipboard takes an image.
\<close>

record platform =
  context2d :: bool
  toDataURL :: "canvas \<Rightarrow> jsstring \<Rightarrow> rat option \<Rightarrow> jsstring"
  image_loads :: "jsstring \<Rightarrow> bool"
  formatDate :: "int \<Rightarrow> jsstring"
  clipboard_writes :: bool

text \<open>
  \<open>processImage_draw\<close> is the canvas of \<^verbatim>\<open>processImage\<close> when it reaches
  \<^verbatim>\<open>canvas.toDataURL\<close>: 600 by 600, with the centred square crop drawn over the whole
  surface and the tint filled over it. \<open>processImage\<close> returns the empty string when there
  is no context, and the encoding of that canvas otherwise.
\<close>

definition processImage_draw :: "video \<Rightarrow> canvas" where
  "processImage_draw v =
     (let size = 600;
          minDim = min (videoWidth v) (videoHeight v);
          startX = (of_nat (videoWidth v) - of_nat minDim) / 2;
          startY = (of_nat (videoHeight v) - of_nat minDim) / 2
      in \<lparr>width = size, height = size,
          ops = [DrawImage (VideoFrame v) startX startY (of_nat minDim) (of_nat minDim)
                   0 0 (of_nat size) (of_nat size),
                 SetGlobalCompositeOperation (js ''overlay''),
                 SetFillStyle (js ''rgba(100, 50, 0, 0.1)''),
                 FillRect 0 0 (of_nat size) (of_nat size)]\<rparr>)"

definition processImage :: "platform \<Rightarrow> video \<Rightarrow> jsstring" where
  "processImage pf v =
     (if \<not> context2d pf then []
      else toDataURL pf (processImage_draw v) (js ''image/jpeg'') (Some (7 / 10)))"

subsection \<open>The camera: \<^verbatim>\<open>takePhoto\<close>\<close>

text \<open>
  The state of \<^verbatim>\<open>RetroCamera\<close>: \<open>videoRef\<close> is \<^verbatim>\<open>videoRef.current\<close> (absent when the video
  element is not rendered). \<open>takePhoto\<close> returns the new state and the time-outs it sets,
  each with its delay in milliseconds. \<open>shutter_timeout\<close> is the callback set for 200 ms: it
  returns the payload it passes to \<^verbatim>\<open>onCapture\<close>, if it calls it, and the time-outs it sets.
\<close>

record camera =
  videoRef :: "video option"
  flash :: bool
  isFlashing :: bool
  printing :: bool

datatype camera_timer = FlashOff | Shutter | PrintingDone

definition takePhoto :: "camera \<Rightarrow> camera \<times> (nat \<times> camera_timer) list" where
  "takePhoto c =
     (if videoRef c = None \<or> printing c then (c, [])
      else (c\<lparr>isFlashing := (if flash c then True else isFlashing c), printing := True\<rparr>,
            (if flash c then [(100, FlashOff)] else []) @ [(200, Shutter)]))"

definition shutter_timeout :: "platform \<Rightarrow> camera \<Rightarrow> jsstring option \<times> (nat \<times> camera_timer) list" where
  "shutter_timeout pf c =
     (case videoRef c of
        None \<Rightarrow> (None, [])
      | Some v \<Rightarrow> (Some (processImage pf v), [(800, PrintingDone)]))"

subsection \<open>The state of \<^verbatim>\<open>App\<close> and its handlers\<close>

text \<open>
  \<open>photos\<close> and \<open>recentPhotoId\<close> are the two state variables. \<open>pending\<close> holds the
  time-outs set by \<^verbatim>\<open>handleCapture\<close> and not yet run, each by the time at which it is due
  (milliseconds on the clock of the event loop); the callback of every one of them is
  \<^verbatim>\<open>setRecentPhotoId(null)\<close>.
\<close>

record app =
  photos :: "photo list"
  recentPhotoId :: "jsstring option"
  pending :: "nat list"

definition initial_app :: app where
  "initial_app = \<lparr>photos = [], recentPhotoId = None, pending = []\<rparr>"

text \<open>
  \<open>handleCapture t now\<^sub>1 now\<^sub>2 url\<close>: the call happens at time \<open>t\<close> of the event loop;
  \<open>now\<^sub>1\<close> and \<open>now\<^sub>2\<close> are the readings of its two calls of \<^verbatim>\<open>Date.now()\<close>, the first for
  the id and the second for the time stamp.
\<close>

definition handleCapture :: "nat \<Rightarrow> int \<Rightarrow> int \<Rightarrow> jsstring \<Rightarrow> app \<Rightarrow> app" where
  "handleCapture t now1 now2 url a =
     (let newPhoto = \<lparr>id_photo = Number_toString now1, dataUrl = url, timestamp = now2\<rparr>
      in a\<lparr>photos := newPhoto # photos a,
           recentPhotoId := Some (id_photo newPhoto),
           pending := pending a @ [t + DEVELOP_TIME_MS]\<rparr>)"

definition handleDelete :: "jsstring \<Rightarrow> app \<Rightarrow> app" where
  "handleDelete i a = a\<lparr>photos := filter (\<lambda>p. id_photo p \<noteq> i) (photos a)\<rparr>"

text \<open>
  The callback of a develop time-out, and the event loop up to time \<open>t\<close>: every pending
  time-out that is due by then runs, in the order in which they were set.
\<close>

definition develop_timeout :: "app \<Rightarrow> app" where
  "develop_timeout a = a\<lparr>recentPhotoId := None\<rparr>"

definition advance :: "nat \<Rightarrow> app \<Rightarrow> app" where
  "advance t a =
     foldl (\<lambda>s d. develop_timeout s)
       (a\<lparr>pending := filter (\<lambda>d. t < d) (pending a)\<rparr>)
       (filter (\<lambda>d. d \<le> t) (pending a))"

text \<open>A capture at time \<open>t\<close>: the time-outs due by \<open>t\<close> have run before it.\<close>

definition capture_at :: "nat \<Rightarrow> int \<Rightarrow> int \<Rightarrow> jsstring \<Rightarrow> app \<Rightarrow> app" where
  "capture_at t now1 now2 url a = handleCapture t now1 now2 url (advance t a)"

text \<open>\<^verbatim>\<open>developing={photo.id === recentPhotoId}\<close>\<close>

definition isDeveloping :: "app \<Rightarrow> photo \<Rightarrow> bool" where
  "isDeveloping a p \<longleftrightarrow> recentPhotoId a = Some (id_photo p)"

text \<open>
  The shutter callback wired to the application (\<^verbatim>\<open>onCapture={handleCapture}\<close>): nothing
  happens when the video element is absent.
\<close>

definition shutter_capture :: "platform \<Rightarrow> camera \<Rightarrow> nat \<Rightarrow> int \<Rightarrow> int \<Rightarrow> app \<Rightarrow> app" where
  "shutter_capture pf c t now1 now2 a =
     (case fst (shutter_timeout pf c) of
        None \<Rightarrow> a
      | Some url \<Rightarrow> handleCapture t now1 now2 url a)"


subsection \<open>Local storage and the two effects of \<^verbatim>\<open>App\<close>\<close>

text \<open>
  \<^verbatim>\<open>localStorage\<close>: the stored items; \<open>denied\<close> when the browser refuses the access (every
  call then throws); \<open>accepts k v\<close> when the medium has room to store \<open>v\<close> under \<open>k\<close>
  (\<^verbatim>\<open>setItem\<close> throws otherwise).
\<close>

record storage =
  items :: "jsstring \<Rightarrow> jsstring option"
  denied :: bool
  accepts :: "jsstring \<Rightarrow> jsstring \<Rightarrow> bool"

definition getItem :: "storage \<Rightarrow> jsstring \<Rightarrow> js_error + jsstring option" where
  "getItem st k = (if denied st then Inl SecurityError else Inr (items st k))"

definition setItem :: "storage \<Rightarrow> jsstring \<Rightarrow> jsstring \<Rightarrow> js_error + storage" where
  "setItem st k v =
     (if denied st then Inl SecurityError
      else if \<not> accepts st k v then Inl QuotaExceededError
      else Inr (st\<lparr>items := (items st)(k \<mapsto> v)\<rparr>))"

text \<open>
  The load effect. Its \<^verbatim>\<open>catch\<close> only logs, so an exception leaves the state as it is; an
  absent item and the empty string (which is falsy) do too. Otherwise the parsed value is
  stored in \<open>photos\<close>, unchecked: \<open>Loaded\<close> when it reads as a photo sequence,
  \<open>Foreign\<close> for any other value, which the typed state of this model cannot hold.
\<close>

datatype load_outcome = Unchanged | Loaded "photo list" | Foreign json

definition load_effect :: "storage \<Rightarrow> load_outcome" where
  "load_effect st =
     (case getItem st STORAGE_KEY of
        Inl e \<Rightarrow> Unchanged
      | Inr None \<Rightarrow> Unchanged
      | Inr (Some stored) \<Rightarrow>
          if stored = [] then Unchanged
          else
            (case JSON_parse stored of
               Inl e \<Rightarrow> Unchanged
             | Inr v \<Rightarrow>
                 (case photos_of_json v of
                    Some ps \<Rightarrow> Loaded ps
                  | None \<Rightarrow> Foreign v)))"

text \<open>The save effect, run after every render in which \<open>photos\<close> has changed.\<close>

definition save_effect :: "photo list \<Rightarrow> storage \<Rightarrow> storage" where
  "save_effect ps st =
     (case setItem st STORAGE_KEY (JSON_stringify (take MAX_STORED_PHOTOS ps)) of
        Inl e \<Rightarrow> st
      | Inr st' \<Rightarrow> st')"

text \<open>
  Mounting \<^verbatim>\<open>App\<close>: after the first render, with \<open>photos = []\<close>, both effects run in
  the order of the source, the load effect on the storage as it was and then the save
  effect, which writes the empty sequence. The result is the state in which the component
  renders again, and the storage at that moment. (When the state has changed, that render
  is followed by the save effect, as every change of \<open>photos\<close> is.) With a value that is
  not a photo sequence the render first evaluates \<^verbatim>\<open>photos.length\<close>: when that throws, the
  render throws; otherwise the typed model follows the application no further.
\<close>

datatype mounted = Mounted app storage | Crashed js_error storage | Untyped json storage

definition mount :: "storage \<Rightarrow> mounted" where
  "mount st =
     (let st1 = save_effect [] st
      in case load_effect st of
           Unchanged \<Rightarrow> Mounted initial_app st1
         | Loaded ps \<Rightarrow> Mounted (initial_app\<lparr>photos := ps\<rparr>) st1
         | Foreign v \<Rightarrow>
             (case photos_length v of
                Inl e \<Rightarrow> Crashed e st1
              | Inr l \<Rightarrow> Untyped v st1))"

text \<open>
  The two writes to the store, each followed by the save effect: a capture at a time of the
  event loop, and a deletion.
\<close>

datatype event = Capture nat int int jsstring | Delete jsstring

fun dispatch :: "event \<Rightarrow> app \<times> storage \<Rightarrow> app \<times> storage" where
  "dispatch (Capture t now1 now2 url) (a, st) =
     (let a' = capture_at t now1 now2 url a in (a', save_effect (photos a') st))"
| "dispatch (Delete i) (a, st) =
     (let a' = handleDelete i a in (a', save_effect (photos a') st))"

definition run :: "event list \<Rightarrow> app \<times> storage \<Rightarrow> app \<times> storage" where
  "run es s = foldl (\<lambda>s e. dispatch e s) s es"

text \<open>
  For a list of events: whether an event is a capture, the photos that its captures create
  (the newest first), and the clock readings from which their ids are made.
\<close>

definition is_capture :: "event \<Rightarrow> bool" where
  "is_capture e = (case e of Capture t now1 now2 url \<Rightarrow> True | Delete i \<Rightarrow> False)"

fun new_photos :: "event list \<Rightarrow> photo list" where
  "new_photos [] = []"
| "new_photos (Capture t now1 now2 url # es) =
     new_photos es @ [\<lparr>id_photo = Number_toString now1, dataUrl = url, timestamp = now2\<rparr>]"
| "new_photos (Delete i # es) = new_photos es"

fun id_readings :: "event list \<Rightarrow> int list" where
  "id_readings [] = []"
| "id_readings (Capture t now1 now2 url # es) = now1 # id_readings es"
| "id_readings (Delete i # es) = id_readings es"

subsection \<open>\<^verbatim>\<open>InstantPhoto\<close>: the controls of a card, and the export\<close>

text \<open>
  The buttons that \<^verbatim>\<open>InstantPhoto\<close> renders, in the order of the source; the Boolean of an
  export button is its \<^verbatim>\<open>disabled\<close> attribute.
\<close>

datatype control = DeleteButton | CopyButton bool | DownloadButton bool

record card_state =
  copied :: bool
  isProcessing :: bool

definition InstantPhoto :: "photo \<Rightarrow> bool \<Rightarrow> card_state \<Rightarrow> control list" where
  "InstantPhoto p developing cs =
     (if \<not> developing then [DeleteButton] else []) @
     (if \<not> developing then [CopyButton (isProcessing cs), DownloadButton (isProcessing cs)]
      else [])"

text \<open>
  The cards of \<^verbatim>\<open>App\<close>, one for each photo in the order of \<open>photos\<close>; \<open>local\<close> gives the
  local state of the card with a given key.
\<close>

definition App_cards :: "(jsstring \<Rightarrow> card_state) \<Rightarrow> app \<Rightarrow> (photo \<times> control list) list" where
  "App_cards local a =
     map (\<lambda>p. (p, InstantPhoto p (isDeveloping a p) (local (id_photo p)))) (photos a)"

text \<open>
  A click on the delete button of the card at position \<open>i\<close>; there is no such click when
  the card has no delete button.
\<close>

definition click_delete :: "(jsstring \<Rightarrow> card_state) \<Rightarrow> nat \<Rightarrow> app \<Rightarrow> app option" where
  "click_delete local i a =
     (if i < length (photos a) \<and> DeleteButton \<in> set (snd (App_cards local a ! i))
      then Some (handleDelete (id_photo (photos a ! i)) a)
      else None)"








subsection \<open>Scenario data\<close>

text \<open>
  The photos of the end-to-end scenario: A captured at 1000 and B captured at 2000 (on the
  clock of the event loop as on the wall clock), and the state after both captures, while B
  develops and the time-outs of both captures are pending.
\<close>

definition photo_A :: photo where
  "photo_A = \<lparr>id_photo = js ''1000'', dataUrl = js ''data:A'', timestamp = 1000\<rparr>"

definition photo_B :: photo where
  "photo_B = \<lparr>id_photo = js ''2000'', dataUrl = js ''data:B'', timestamp = 2000\<rparr>"

definition app_BA :: app where
  "app_BA = \<lparr>photos = [photo_B, photo_A], recentPhotoId = Some (js ''2000''),
              pending = [2800, 3800]\<rparr>"

text \<open>Cards without an export in progress, and a browser in which every platform call succeeds.\<close>

definition no_local :: "jsstring \<Rightarrow> card_state" where
  "no_local k = \<lparr>copied = False, isProcessing = False\<rparr>"

definition platform_0 :: platform where
  "platform_0 = \<lparr>context2d = True,
     toDataURL = (\<lambda>c t q. js ''data:'' @ t @ js '';base64,AAAA''),
     image_loads = (\<lambda>u. u \<noteq> []),
     formatDate = (\<lambda>t. Number_toString t),
     clipboard_writes = True\<rparr>"

text \<open>
  A video element that has no frame yet, the camera after \<^verbatim>\<open>takePhoto\<close> with that element,
  and the two video sizes of the specification's example.
\<close>

definition video_0 :: video where
  "video_0 = \<lparr>videoWidth = 0, videoHeight = 0\<rparr>"

definition camera_0 :: camera where
  "camera_0 = \<lparr>videoRef = Some video_0, flash = True, isFlashing = False, printing = True\<rparr>"

definition video_landscape :: video where
  "video_landscape = \<lparr>videoWidth = 1920, videoHeight = 1080\<rparr>"

definition video_portrait :: video where
  "video_portrait = \<lparr>videoWidth = 1080, videoHeight = 1920\<rparr>"

text \<open>
  An empty local storage that accepts every write, a local storage that holds a given text
  under the application's key, and 51 captures, one second apart.
\<close>

definition storage_0 :: storage where
  "storage_0 = \<lparr>items = (\<lambda>k. None), denied = False, accepts = (\<lambda>k v. True)\<rparr>"

definition storage_of :: "jsstring \<Rightarrow> storage" where
  "storage_of s = storage_0\<lparr>items := (\<lambda>k. if k = STORAGE_KEY then Some s else None)\<rparr>"

definition captures_51 :: "event list" where
  "captures_51 = map (\<lambda>k. Capture (1000 * k) (1000 * int k) (1000 * int k) (js ''data:'')) [1..<52]"

section \<open>Reading back what was written\<close>

subsection \<open>Strings\<close>

lemma skip_ws_nonws: "\<not> is_ws c \<Longrightarrow> skip_ws (c # cs) = c # cs"
  by (simp add: skip_ws_def)

lemma hex_val_hex_digit: "k < 16 \<Longrightarrow> hex_val (hex_digit k) = Some k"
proof -
  assume "k < 16"
  then have "k = 0 \<or> k = 1 \<or> k = 2 \<or> k = 3 \<or> k = 4 \<or> k = 5 \<or> k = 6 \<or> k = 7 \<or> k = 8
    \<or> k = 9 \<or> k = 10 \<or> k = 11 \<or> k = 12 \<or> k = 13 \<or> k = 14 \<or> k = 15"
    by arith
  then show ?thesis
    by (elim disjE) (simp_all add: hex_val_def hex_digit_def)
qed

lemma unat_code_unit: "unat (c :: code_unit) < 65536"
  using unsigned_less [of c, where 'a = nat] by simp

lemma hex4_unicode:
  "hex4 (hex_digit (unat c div 4096)) (hex_digit (unat c div 256 mod 16))
        (hex_digit (unat c div 16 mod 16)) (hex_digit (unat c mod 16)) = Some (c :: code_unit)"
proof -
  have lt: "unat c < 65536" by (rule unat_code_unit)
  then have a: "unat c div 4096 < 16" by simp
  have h1: "unat c div 4096 = unat c div 256 div 16" by (simp add: div_mult2_eq [symmetric])
  have h2: "unat c div 256 = unat c div 16 div 16" by (simp add: div_mult2_eq [symmetric])
  have e1: "unat c div 4096 * 16 + unat c div 256 mod 16 = unat c div 256"
    unfolding h1 by (rule div_mult_mod_eq)
  have e2: "unat c div 256 * 16 + unat c div 16 mod 16 = unat c div 16"
    unfolding h2 by (rule div_mult_mod_eq)
  have eq: "((unat c div 4096 * 16 + unat c div 256 mod 16) * 16 + unat c div 16 mod 16) * 16
              + unat c mod 16 = unat c"
    unfolding e1 e2 by (rule div_mult_mod_eq)
  have w: "(of_nat (((unat c div 4096 * 16 + unat c div 256 mod 16) * 16 + unat c div 16 mod 16) * 16
              + unat c mod 16) :: code_unit) = c"
    unfolding eq by simp
  have v1: "hex_val (hex_digit (unat c div 4096)) = Some (unat c div 4096)"
    by (rule hex_val_hex_digit) (rule a)
  have v2: "hex_val (hex_digit (unat c div 256 mod 16)) = Some (unat c div 256 mod 16)"
    by (rule hex_val_hex_digit) simp
  have v3: "hex_val (hex_digit (unat c div 16 mod 16)) = Some (unat c div 16 mod 16)"
    by (rule hex_val_hex_digit) simp
  have v4: "hex_val (hex_digit (unat c mod 16)) = Some (unat c mod 16)"
    by (rule hex_val_hex_digit) simp
  show ?thesis
    unfolding hex4_def v1 v2 v3 v4 by (simp only: prod.case option.case w)
qed

lemma parse_plain:
  "c \<noteq> 0x22 \<Longrightarrow> c \<noteq> 0x5C \<Longrightarrow> \<not> c < 0x20 \<Longrightarrow>
   parse_string_body (c # cs) = cons_result c (parse_string_body cs)"
  by simp

lemma parse_unicode_escape:
  "parse_string_body (unicode_escape c @ cs) = cons_result c (parse_string_body cs)"
  by (simp add: unicode_escape_def Let_def hex4_unicode)

lemma parse_escape_unit:
  "parse_string_body (escape_unit c @ cs) = cons_result c (parse_string_body cs)"
proof -
  consider "c = 0x08" | "c = 0x09" | "c = 0x0A" | "c = 0x0C" | "c = 0x0D" | "c = 0x22" | "c = 0x5C"
    | "c \<notin> {0x08, 0x09, 0x0A, 0x0C, 0x0D, 0x22, 0x5C}" "c < 0x20 \<or> is_high_surrogate c \<or> is_low_surrogate c"
    | "c \<notin> {0x08, 0x09, 0x0A, 0x0C, 0x0D, 0x22, 0x5C}" "\<not> (c < 0x20 \<or> is_high_surrogate c \<or> is_low_surrogate c)"
    by blast
  then show ?thesis
  proof cases
    case 8
    then show ?thesis by (simp add: escape_unit_def parse_unicode_escape del: parse_string_body.simps)
  next
    case 9
    then show ?thesis by (simp add: escape_unit_def parse_plain del: parse_string_body.simps)
  qed (simp_all add: escape_unit_def simple_escape_def)
qed

lemma parse_closing_quote: "parse_string_body (0x22 # rest) = Some ([], rest)"
  by simp

declare parse_string_body.simps [simp del]

lemma high_surrogate_plain: "is_high_surrogate c \<Longrightarrow> c \<noteq> 0x22 \<and> c \<noteq> 0x5C \<and> \<not> c < 0x20"
  unfolding is_high_surrogate_def by (auto simp: word_le_nat_alt word_less_nat_alt)

lemma low_surrogate_plain: "is_low_surrogate c \<Longrightarrow> c \<noteq> 0x22 \<and> c \<noteq> 0x5C \<and> \<not> c < 0x20"
  unfolding is_low_surrogate_def by (auto simp: word_le_nat_alt word_less_nat_alt)

lemma parse_quote_body:
  "parse_string_body (quote_body s @ 0x22 # rest) = Some (s, rest)"
proof (induction s rule: quote_body.induct)
  case 1
  show ?case by (simp add: parse_closing_quote)
next
  case (2 c)
  show ?case by (simp add: parse_escape_unit parse_closing_quote cons_result_def)
next
  case (3 c d cs)
  show ?case
  proof (cases "is_high_surrogate c \<and> is_low_surrogate d")
    case True
    with 3 show ?thesis
      using high_surrogate_plain [of c] low_surrogate_plain [of d]
      by (simp add: cons_result_def parse_plain)
  next
    case False
    then have "quote_body (c # d # cs) = escape_unit c @ quote_body (d # cs)"
      by auto
    with 3 False show ?thesis
      by (simp add: parse_escape_unit cons_result_def del: quote_body.simps)
  qed
qed

subsection \<open>Integers\<close>

lemma digit_unit:
  assumes "k < 10"
  shows "is_digit (digit_char k)" and "digit_val (digit_char k) = k"
    and "digit_char k \<noteq> 0x2D"
    and "(digit_char k = 0x30) = (k = 0)"
proof -
  from assms have "k = 0 \<or> k = 1 \<or> k = 2 \<or> k = 3 \<or> k = 4 \<or> k = 5 \<or> k = 6 \<or> k = 7 \<or> k = 8 \<or> k = 9"
    by arith
  then show "is_digit (digit_char k)" and "digit_val (digit_char k) = k"
    and "digit_char k \<noteq> 0x2D"
    and "(digit_char k = 0x30) = (k = 0)"
    by (elim disjE; simp add: is_digit_def digit_val_def digit_char_def)+
qed

declare digits.simps [simp del]

lemma digits_small: "n < 10 \<Longrightarrow> digits n = [digit_char n]"
  by (simp add: digits.simps)

lemma digits_large: "\<not> n < 10 \<Longrightarrow> digits n = digits (n div 10) @ [digit_char (n mod 10)]"
  by (subst digits.simps) simp

lemma digits_nonempty: "digits n \<noteq> []"
  by (cases "n < 10") (simp_all add: digits_small digits_large)

lemma digits_all_digit: "c \<in> set (digits n) \<Longrightarrow> is_digit c"
proof (induction n arbitrary: c rule: digits.induct)
  case (1 n)
  show ?case
  proof (cases "n < 10")
    case True
    with 1(2) show ?thesis by (simp add: digits_small digit_unit)
  next
    case False
    with 1 show ?thesis by (auto simp: digits_large digit_unit)
  qed
qed

lemma nat_of_digits_snoc: "nat_of_digits (ds @ [c]) = 10 * nat_of_digits ds + digit_val c"
  by (simp add: nat_of_digits_def)

lemma nat_of_digits_digits: "nat_of_digits (digits n) = n"
proof (induction n rule: digits.induct)
  case (1 n)
  show ?case
  proof (cases "n < 10")
    case True
    then show ?thesis by (simp add: digits_small nat_of_digits_def digit_unit)
  next
    case False
    with 1 show ?thesis by (simp add: digits_large nat_of_digits_snoc digit_unit)
  qed
qed

lemma hd_digits_nonzero: "0 < n \<Longrightarrow> hd (digits n) \<noteq> 0x30"
proof (induction n rule: digits.induct)
  case (1 n)
  show ?case
  proof (cases "n < 10")
    case True
    with 1(2) show ?thesis by (simp add: digits_small digit_unit)
  next
    case False
    then have "0 < n div 10" by simp
    with 1 False show ?thesis by (simp add: digits_large digits_nonempty)
  qed
qed

lemma digits_no_leading_zero: "1 < length (digits n) \<Longrightarrow> hd (digits n) \<noteq> 0x30"
  by (cases "n < 10") (simp_all add: digits_small hd_digits_nonzero)

lemma hd_digits_not_minus: "hd (digits n) \<noteq> 0x2D"
proof -
  have "hd (digits n) \<in> set (digits n)" by (simp add: digits_nonempty)
  then have "is_digit (hd (digits n))" by (rule digits_all_digit)
  then show ?thesis by (auto simp: is_digit_def)
qed

lemma takeWhile_digits: "\<not> is_digit c \<Longrightarrow> takeWhile is_digit (digits n @ c # rest) = digits n"
  by (simp add: takeWhile_append2 digits_all_digit)

lemma dropWhile_digits: "\<not> is_digit c \<Longrightarrow> dropWhile is_digit (digits n @ c # rest) = c # rest"
  by (simp add: dropWhile_append2 digits_all_digit)

lemma parse_number_digits:
  assumes "\<not> is_digit c" "c \<noteq> 0x2E" "c \<noteq> 0x65" "c \<noteq> 0x45"
  shows "parse_number (digits m @ c # rest) = Some (of_nat m, c # rest)"
proof -
  obtain d ds where dd: "digits m = d # ds"
    using digits_nonempty [of m] by (cases "digits m") auto
  have d: "d \<noteq> 0x2D" using hd_digits_not_minus [of m] dd by simp
  have lz: "\<not> (1 < length (digits m) \<and> hd (digits m) = 0x30)"
    using digits_no_leading_zero [of m] by blast
  have tw: "takeWhile is_digit (digits m @ c # rest) = digits m"
    and dw: "dropWhile is_digit (digits m @ c # rest) = c # rest"
    using assms(1) by (simp_all add: takeWhile_digits dropWhile_digits)
  have nneg: "(case digits m @ c # rest of [] \<Rightarrow> False | x # _ \<Rightarrow> x = 0x2D) = False"
    using d by (simp add: dd)
  show ?thesis
    unfolding parse_number_def Let_def nneg
    using assms lz digits_nonempty [of m]
    by (simp add: tw dw parse_fraction_def parse_exponent_def scale10_def nat_of_digits_digits)
qed

lemma parse_number_toString:
  assumes "\<not> is_digit c" "c \<noteq> 0x2E" "c \<noteq> 0x65" "c \<noteq> 0x45"
  shows "parse_number (Number_toString n @ c # rest) = Some (of_int n, c # rest)"
proof (cases "n < 0")
  case False
  then show ?thesis
    using parse_number_digits [OF assms, of "nat n" rest]
    by (simp add: Number_toString_def)
next
  case True
  have lz: "\<not> (1 < length (digits (nat (- n))) \<and> hd (digits (nat (- n))) = 0x30)"
    using digits_no_leading_zero [of "nat (- n)"] by blast
  have tw: "takeWhile is_digit (digits (nat (- n)) @ c # rest) = digits (nat (- n))"
    and dw: "dropWhile is_digit (digits (nat (- n)) @ c # rest) = c # rest"
    using assms(1) by (simp_all add: takeWhile_digits dropWhile_digits)
  have v: "(of_nat (nat (- n)) :: rat) = - of_int n" using True by simp
  show ?thesis
    unfolding parse_number_def Let_def
    using assms lz digits_nonempty [of "nat (- n)"] True
    by (simp add: Number_toString_def tw dw parse_fraction_def parse_exponent_def scale10_def
        nat_of_digits_digits v)
qed

subsection \<open>Photo sequences\<close>

lemma parse_value_string:
  "parse_value (Suc n) (QuoteJSONString s @ rest) = Some (JString s, rest)"
  by (simp add: QuoteJSONString_def skip_ws_def is_ws_def parse_quote_body)

lemma digits_head: "\<exists>x xs. digits m = x # xs \<and> is_digit x"
proof -
  obtain x xs where e: "digits m = x # xs"
    using digits_nonempty [of m] by (cases "digits m") auto
  have "x \<in> set (digits m)" by (simp add: e)
  then have "is_digit x" by (rule digits_all_digit)
  with e show ?thesis by blast
qed

lemma Number_toString_head:
  "\<exists>x xs. Number_toString t = x # xs \<and> (x = 0x2D \<or> is_digit x)"
proof (cases "t < 0")
  case True
  then show ?thesis by (simp add: Number_toString_def)
next
  case False
  then show ?thesis using digits_head [of "nat t"] by (auto simp: Number_toString_def)
qed

lemma parse_value_number:
  assumes "\<not> is_digit c" "c \<noteq> 0x2E" "c \<noteq> 0x65" "c \<noteq> 0x45"
  shows "parse_value (Suc n) (Number_toString t @ c # rest) = Some (JNumber (of_int t), c # rest)"
proof -
  obtain x xs where e: "Number_toString t = x # xs" and x: "x = 0x2D \<or> is_digit x"
    using Number_toString_head [of t] by blast
  have nws: "\<not> is_ws x" using x by (auto simp: is_ws_def is_digit_def)
  have nb: "x \<noteq> 0x5B" "x \<noteq> 0x7B" "x \<noteq> 0x22" using x by (auto simp: is_digit_def)
  have p: "parse_number (x # xs @ c # rest) = Some (of_int t, c # rest)"
    using parse_number_toString [OF assms, of t rest] by (simp add: e)
  show ?thesis
    using nws nb x by (simp add: e skip_ws_nonws p)
qed


declare parse_value.simps [simp del] parse_elements.simps [simp del] parse_members.simps [simp del]

lemma skip_ws_Cons: "skip_ws (c # cs) = (if is_ws c then skip_ws cs else c # cs)"
  by (simp add: skip_ws_def)

lemma parse_value_quoted:
  "parse_value (Suc n) (0x22 # quote_body s @ 0x22 # rest) = Some (JString s, rest)"
  using parse_value_string [of n s rest] by (simp add: QuoteJSONString_def)

lemma photo_keys_distinct:
  "js ''id'' \<noteq> js ''dataUrl''" "js ''id'' \<noteq> js ''timestamp''"
  "js ''dataUrl'' \<noteq> js ''timestamp''"
  by (simp_all add: js_def)

lemma stringify_photo_unfold:
  "stringify_photo p @ rest =
     0x7B # 0x22 # quote_body (js ''id'') @ 0x22 # 0x3A # 0x22 # quote_body (id_photo p) @ 0x22 #
     0x2C # 0x22 # quote_body (js ''dataUrl'') @ 0x22 # 0x3A # 0x22 # quote_body (dataUrl p) @ 0x22 #
     0x2C # 0x22 # quote_body (js ''timestamp'') @ 0x22 # 0x3A # Number_toString (timestamp p) @
     0x7D # rest"
  by (simp add: stringify_photo_def SerializeJSONObject_def SerializeJSONProperty_def
      QuoteJSONString_def)

lemma parse_members_string:
  "parse_members (Suc (Suc n))
     (0x22 # quote_body k @ 0x22 # 0x3A # 0x22 # quote_body s @ 0x22 # 0x2C # rest) =
     (case parse_members (Suc n) rest of
        None \<Rightarrow> None
      | Some (ms, r) \<Rightarrow> Some (first_member k (JString s) ms, r))"
  by (subst parse_members.simps)
     (simp add: skip_ws_Cons is_ws_def parse_quote_body parse_value_quoted)

lemma parse_members_last_number:
  "parse_members (Suc (Suc n))
     (0x22 # quote_body k @ 0x22 # 0x3A # Number_toString t @ 0x7D # rest) =
     Some ([(k, JNumber (of_int t))], rest)"
proof -
  have b: "parse_value (Suc n) (Number_toString t @ 0x7D # rest)
             = Some (JNumber (of_int t), 0x7D # rest)"
    by (rule parse_value_number) (simp_all add: is_digit_def)
  show ?thesis
    by (subst parse_members.simps)
       (simp add: skip_ws_Cons is_ws_def parse_quote_body b)
qed

lemma parse_value_photo:
  "parse_value (Suc (Suc (Suc (Suc (Suc n))))) (stringify_photo p @ rest)
     = Some (photo_to_json p, rest)"
  unfolding stringify_photo_unfold
  by (subst parse_value.simps)
     (simp add: skip_ws_Cons is_ws_def parse_members_string parse_members_last_number
        first_member_def photo_keys_distinct photo_to_json_def)

lemma parse_value_photo_fuel:
  assumes "5 \<le> n"
  shows "parse_value n (stringify_photo p @ rest) = Some (photo_to_json p, rest)"
proof -
  from assms have "n = Suc (Suc (Suc (Suc (Suc (n - 5)))))"
    by arith
  then show ?thesis using parse_value_photo [of "n - 5" p rest] by simp
qed

lemma parse_elements_photos:
  "ps \<noteq> [] \<Longrightarrow> length ps + 5 \<le> n \<Longrightarrow>
   parse_elements n (join_comma (map stringify_photo ps) @ 0x5D # rest)
     = Some (map photo_to_json ps, rest)"
proof (induction ps arbitrary: n)
  case Nil
  then show ?case by simp
next
  case (Cons p ps)
  from Cons.prems(2) obtain m where n: "n = Suc m" and m: "length ps + 5 \<le> m"
    by (cases n) auto
  then have m5: "5 \<le> m" by simp
  show ?case
  proof (cases ps)
    case Nil
    show ?thesis
      unfolding n Nil
      by (subst parse_elements.simps)
         (simp add: parse_value_photo_fuel [OF m5] skip_ws_Cons is_ws_def)
  next
    case (Cons q qs)
    have ih: "parse_elements m (join_comma (map stringify_photo ps) @ 0x5D # rest)
                = Some (map photo_to_json ps, rest)"
      using Cons.IH [of m] m Cons by simp
    show ?thesis
      unfolding n
      apply (subst parse_elements.simps)
      using ih
      apply (simp add: Cons parse_value_photo_fuel [OF m5] skip_ws_Cons is_ws_def)
      done
  qed
qed


lemma length_stringify_photo: "3 \<le> length (stringify_photo p)"
  by (simp add: stringify_photo_def SerializeJSONObject_def SerializeJSONProperty_def
      QuoteJSONString_def)

lemma length_join_photos: "length ps \<le> length (join_comma (map stringify_photo ps))"
proof (induction ps rule: induct_list012)
  case 1
  show ?case by simp
next
  case (2 p)
  show ?case using length_stringify_photo [of p] by simp
next
  case (3 p q ps)
  then show ?case using length_stringify_photo [of p] by simp
qed

lemma JSON_parse_stringify: "JSON_parse (JSON_stringify ps) = Inr (photos_to_json ps)"
proof (cases ps)
  case Nil
  show ?thesis
    unfolding JSON_parse_def JSON_stringify_def SerializeJSONArray_def Nil
    by (subst parse_value.simps) (simp add: skip_ws_Cons is_ws_def skip_ws_def photos_to_json_def)
next
  case (Cons p qs)
  define body where "body = join_comma (map stringify_photo ps)"
  have len: "length ps \<le> length body"
    unfolding body_def by (rule length_join_photos)
  have ne: "ps \<noteq> []" using Cons by simp
  then have pos: "0 < length ps" by simp
  have fuel: "length ps + 5 \<le> 2 * length (0x5B # body @ [0x5D :: code_unit])"
  proof -
    have "length (0x5B # body @ [0x5D :: code_unit]) = length body + 2" by simp
    with len pos show ?thesis by arith
  qed
  have el: "parse_elements (2 * length (0x5B # body @ [0x5D :: code_unit])) (body @ 0x5D # [])
              = Some (map photo_to_json ps, [])"
    unfolding body_def [symmetric]
    using parse_elements_photos [OF ne fuel [unfolded body_def], of "[]"]
    by (simp add: body_def)
  obtain x xs where bx: "body = x # xs" and x: "x = 0x7B"
    unfolding body_def Cons
    by (cases qs) (simp_all add: stringify_photo_def SerializeJSONObject_def)
  show ?thesis
    unfolding JSON_parse_def JSON_stringify_def SerializeJSONArray_def body_def [symmetric]
    apply (subst parse_value.simps)
    using el
    apply (simp add: bx x skip_ws_Cons is_ws_def photos_to_json_def skip_ws_def)
    done
qed

lemma photo_of_json_roundtrip: "photo_of_json (photo_to_json p) = Some p"
  using photo_keys_distinct
  by (simp add: photo_of_json_def photo_to_json_def as_string_def as_integer_def)

lemma photos_of_json_roundtrip: "photos_of_json (photos_to_json ps) = Some ps"
  by (induction ps) (simp_all add: photos_of_json_def photos_to_json_def photo_of_json_roundtrip)

section \<open>The bound on nested calls\<close>

text \<open>
  A successful parse consumes text, and the calls it nests need a bound of at most twice the
  number of code units consumed. So the bound that \<open>JSON_parse\<close> supplies is never the
  reason for a failure: \<open>JSON_parse\<close> reports a syntax error exactly when no bound at all
  makes the parser read a value followed only by white space.
\<close>

lemma skip_ws_length: "length (skip_ws cs) \<le> length cs"
  by (simp add: skip_ws_def length_dropWhile_le)

lemma skip_ws_ConsD: "skip_ws cs = c # rest \<Longrightarrow> length rest < length cs"
  using skip_ws_length [of cs] by simp

lemma cons_result_Some:
  "cons_result u x = Some (s, r) \<Longrightarrow> \<exists>s'. x = Some (s', r) \<and> s = u # s'"
  by (cases x) (auto simp: cons_result_def)

lemma parse_string_body_step:
  assumes "parse_string_body (c # t) = Some (s, r)"
  shows "(c = 0x22 \<and> r = t) \<or> (\<exists>t' s'. length t' \<le> length t \<and> parse_string_body t' = Some (s', r))"
proof (cases "c = 0x22")
  case True
  with assms show ?thesis by (simp add: parse_string_body.simps)
next
  case q: False
  from assms q obtain u x where "cons_result u (parse_string_body x) = Some (s, r)"
    and "length x \<le> length t"
    by (auto simp: parse_string_body.simps split: if_splits list.splits option.splits)
  then show ?thesis using cons_result_Some by blast
qed

lemma parse_string_body_length: "parse_string_body cs = Some (s, r) \<Longrightarrow> length r < length cs"
proof (induction "length cs" arbitrary: cs s r rule: less_induct)
  case less
  show ?case
  proof (cases cs)
    case Nil
    with less.prems show ?thesis by (simp add: parse_string_body.simps)
  next
    case (Cons c t)
    from parse_string_body_step [OF less.prems [unfolded Cons]]
    show ?thesis
    proof
      assume "c = 0x22 \<and> r = t"
      then show ?thesis by (simp add: Cons)
    next
      assume "\<exists>t' s'. length t' \<le> length t \<and> parse_string_body t' = Some (s', r)"
      then obtain t' s' where l: "length t' \<le> length t" and p: "parse_string_body t' = Some (s', r)"
        by blast
      from l have "length t' < length cs" by (simp add: Cons)
      from less.hyps [OF this p] l show ?thesis by (simp add: Cons)
    qed
  qed
qed

lemma takeWhile_dropWhile_length:
  "takeWhile P xs \<noteq> [] \<Longrightarrow> length (dropWhile P xs) < length xs"
  by (cases xs) (auto simp: le_imp_less_Suc length_dropWhile_le split: if_splits)

lemma parse_fraction_length: "parse_fraction cs = Some (q, r) \<Longrightarrow> length r \<le> length cs"
  by (auto simp: parse_fraction_def Let_def le_SucI length_dropWhile_le split: list.splits if_splits)

lemma parse_exponent_length: "parse_exponent cs = Some (q, r) \<Longrightarrow> length r \<le> length cs"
  by (auto simp: parse_exponent_def Let_def le_SucI length_dropWhile_le
      intro: le_trans [OF length_dropWhile_le] split: list.splits if_splits)

lemma parse_number_length:
  assumes "parse_number cs = Some (q, r)"
  shows "length r < length cs"
proof -
  define cs1 where "cs1 = (if (case cs of [] \<Rightarrow> False | c # x \<Rightarrow> c = 0x2D) then tl cs else cs)"
  from assms obtain fr cs3 ex where ne: "takeWhile is_digit cs1 \<noteq> []"
    and f: "parse_fraction (dropWhile is_digit cs1) = Some (fr, cs3)"
    and e: "parse_exponent cs3 = Some (ex, r)"
    unfolding parse_number_def Let_def cs1_def [symmetric]
    by (auto split: if_splits option.splits)
  have "length cs1 \<le> length cs" by (simp add: cs1_def)
  moreover have "length (dropWhile is_digit cs1) < length cs1"
    using ne by (rule takeWhile_dropWhile_length)
  moreover have "length cs3 \<le> length (dropWhile is_digit cs1)"
    using f by (rule parse_fraction_length)
  moreover have "length r \<le> length cs3" using e by (rule parse_exponent_length)
  ultimately show ?thesis by linarith
qed

lemma parse_literal_length: "parse_literal cs = Some (v, r) \<Longrightarrow> length r < length cs"
proof -
  assume a: "parse_literal cs = Some (v, r)"
  have l: "take n cs = xs \<Longrightarrow> 0 < length xs \<Longrightarrow> length (drop n cs) < length cs" for n xs
    by (cases n) auto
  from a show ?thesis
    by (auto simp: parse_literal_def js_def split: if_splits intro: l)
qed

lemma value_transfer:
  assumes "parse_value (Suc n) cs = Some (v, r)"
    and "\<And>x y. length x < length cs \<Longrightarrow> parse_elements n x = Some (y, r) \<Longrightarrow>
           parse_elements m x = Some (y, r)"
    and "\<And>x y. length x < length cs \<Longrightarrow> parse_members n x = Some (y, r) \<Longrightarrow>
           parse_members m x = Some (y, r)"
  shows "parse_value (Suc m) cs = Some (v, r)"
  using assms(1)
  by (auto simp: parse_value.simps assms(2,3) skip_ws_ConsD
      split: list.splits if_splits option.splits)

lemma skip_ws_ConsD': "skip_ws cs = c # rest \<Longrightarrow> Suc (length rest) \<le> length cs"
  using skip_ws_length [of cs] by simp

lemma value_length:
  assumes "parse_value (Suc n) cs = Some (v, r)"
    and "\<And>x y. parse_elements n x = Some (y, r) \<Longrightarrow> length r < length x"
    and "\<And>x y. parse_members n x = Some (y, r) \<Longrightarrow> length r < length x"
  shows "length r < length cs"
  using assms(1)
  by (auto simp: parse_value.simps split: list.splits if_splits option.splits
      dest!: skip_ws_ConsD' parse_string_body_length parse_number_length parse_literal_length
        assms(2,3))

lemma elements_length:
  assumes "parse_elements (Suc n) cs = Some (vs, r)"
    and "\<And>x y r'. parse_value n x = Some (y, r') \<Longrightarrow> length r' < length x"
    and "\<And>x ys. parse_elements n x = Some (ys, r) \<Longrightarrow> length r + 2 \<le> length x"
  shows "length r + 2 \<le> length cs"
  using assms(1)
  by (auto simp: parse_elements.simps split: list.splits if_splits option.splits
      dest!: skip_ws_ConsD' assms(2,3))

lemma elements_transfer:
  assumes "parse_elements (Suc n) cs = Some (vs, r)"
    and "\<And>y r'. parse_value n cs = Some (y, r') \<Longrightarrow> length r < length r' \<Longrightarrow>
           parse_value m cs = Some (y, r')"
    and "\<And>x ys y r'. parse_value n cs = Some (y, r') \<Longrightarrow> length x < length r' \<Longrightarrow>
           parse_elements n x = Some (ys, r) \<Longrightarrow> parse_elements m x = Some (ys, r)"
    and "\<And>x ys. parse_elements n x = Some (ys, r) \<Longrightarrow> length r < length x"
  shows "parse_elements (Suc m) cs = Some (vs, r)"
proof -
  from assms(1) obtain v rest c rest' where v: "parse_value n cs = Some (v, rest)"
    and s: "skip_ws rest = c # rest'"
    and d: "(c = 0x2C \<and> (\<exists>vs'. parse_elements n rest' = Some (vs', r) \<and> vs = v # vs'))
          \<or> (c = 0x5D \<and> vs = [v] \<and> r = rest')"
    by (auto simp: parse_elements.simps split: list.splits if_splits option.splits)
  have l: "length rest' < length rest" using s by (rule skip_ws_ConsD)
  from d show ?thesis
  proof
    assume "c = 0x2C \<and> (\<exists>vs'. parse_elements n rest' = Some (vs', r) \<and> vs = v # vs')"
    then obtain vs' where c: "c = 0x2C" and e: "parse_elements n rest' = Some (vs', r)"
      and vs: "vs = v # vs'"
      by blast
    have "length r < length rest'" using e by (rule assms(4))
    with l have "length r < length rest" by simp
    with v have "parse_value m cs = Some (v, rest)" by (rule assms(2))
    moreover have "parse_elements m rest' = Some (vs', r)" using v l e by (rule assms(3))
    ultimately show ?thesis by (simp add: parse_elements.simps s c vs)
  next
    assume a: "c = 0x5D \<and> vs = [v] \<and> r = rest'"
    with l have "length r < length rest" by simp
    with v have "parse_value m cs = Some (v, rest)" by (rule assms(2))
    with a show ?thesis by (simp add: parse_elements.simps s)
  qed
qed

lemma members_length:
  assumes "parse_members (Suc n) cs = Some (ms, r)"
    and "\<And>x y r'. parse_value n x = Some (y, r') \<Longrightarrow> length r' < length x"
    and "\<And>x ys. parse_members n x = Some (ys, r) \<Longrightarrow> length r + 2 \<le> length x"
  shows "length r + 2 \<le> length cs"
  using assms(1)
  by (auto simp: parse_members.simps split: list.splits if_splits option.splits
      dest!: skip_ws_ConsD' parse_string_body_length assms(2,3))

lemma members_transfer:
  assumes "parse_members (Suc n) cs = Some (ms, r)"
    and "\<And>x y r'. length x + 2 \<le> length cs \<Longrightarrow> parse_value n x = Some (y, r') \<Longrightarrow>
           length r < length r' \<Longrightarrow> parse_value m x = Some (y, r')"
    and "\<And>x ys. length x + 4 \<le> length cs \<Longrightarrow> parse_members n x = Some (ys, r) \<Longrightarrow>
           parse_members m x = Some (ys, r)"
    and "\<And>x y r'. parse_value n x = Some (y, r') \<Longrightarrow> length r' < length x"
    and "\<And>x ys. parse_members n x = Some (ys, r) \<Longrightarrow> length r < length x"
  shows "parse_members (Suc m) cs = Some (ms, r)"
proof -
  from assms(1) obtain rest k rest1 rest2 v rest3 d rest4
    where s0: "skip_ws cs = 0x22 # rest"
      and k: "parse_string_body rest = Some (k, rest1)"
      and s1: "skip_ws rest1 = 0x3A # rest2"
      and v: "parse_value n rest2 = Some (v, rest3)"
      and s3: "skip_ws rest3 = d # rest4"
      and d: "(d = 0x2C \<and> (\<exists>ms'. parse_members n rest4 = Some (ms', r) \<and> ms = first_member k v ms'))
            \<or> (d = 0x7D \<and> ms = [(k, v)] \<and> r = rest4)"
    by (auto simp: parse_members.simps split: list.splits if_splits option.splits)
  have l0: "Suc (length rest) \<le> length cs" using s0 by (rule skip_ws_ConsD')
  have l1: "length rest1 < length rest" using k by (rule parse_string_body_length)
  have l2: "Suc (length rest2) \<le> length rest1" using s1 by (rule skip_ws_ConsD')
  have l3: "length rest3 < length rest2" using v by (rule assms(4))
  have l4: "Suc (length rest4) \<le> length rest3" using s3 by (rule skip_ws_ConsD')
  have x2: "length rest2 + 2 \<le> length cs" using l0 l1 l2 by linarith
  have x4: "length rest4 + 4 \<le> length cs" using l0 l1 l2 l3 l4 by linarith
  from d show ?thesis
  proof
    assume "d = 0x2C \<and> (\<exists>ms'. parse_members n rest4 = Some (ms', r) \<and> ms = first_member k v ms')"
    then obtain ms' where c: "d = 0x2C" and e: "parse_members n rest4 = Some (ms', r)"
      and ms: "ms = first_member k v ms'"
      by blast
    have "length r < length rest4" using e by (rule assms(5))
    with l4 have "length r < length rest3" by simp
    with x2 v have "parse_value m rest2 = Some (v, rest3)" by (rule assms(2))
    moreover have "parse_members m rest4 = Some (ms', r)" using x4 e by (rule assms(3))
    ultimately show ?thesis by (simp add: parse_members.simps s0 k s1 s3 c ms)
  next
    assume a: "d = 0x7D \<and> ms = [(k, v)] \<and> r = rest4"
    with l4 have "length r < length rest3" by simp
    with x2 v have "parse_value m rest2 = Some (v, rest3)" by (rule assms(2))
    with a show ?thesis by (simp add: parse_members.simps s0 k s1 s3)
  qed
qed

lemma fuel_adequate:
  "(\<forall>cs v r. parse_value n cs = Some (v, r) \<longrightarrow>
       length r < length cs
       \<and> (\<forall>m. 2 * (length cs - length r) \<le> Suc m \<longrightarrow> parse_value m cs = Some (v, r)))
   \<and> (\<forall>cs vs r. parse_elements n cs = Some (vs, r) \<longrightarrow>
       length r + 2 \<le> length cs
       \<and> (\<forall>m. 2 * (length cs - length r) \<le> m + 2 \<longrightarrow> parse_elements m cs = Some (vs, r)))
   \<and> (\<forall>cs ms r. parse_members n cs = Some (ms, r) \<longrightarrow>
       length r + 2 \<le> length cs
       \<and> (\<forall>m. 2 * (length cs - length r) \<le> m + 2 \<longrightarrow> parse_members m cs = Some (ms, r)))"
proof (induction n)
  case 0
  show ?case by (simp add: parse_value.simps parse_elements.simps parse_members.simps)
next
  case (Suc n)
  then have VLen: "\<And>x y r. parse_value n x = Some (y, r) \<Longrightarrow> length r < length x"
    and VTr: "\<And>x y r m. parse_value n x = Some (y, r) \<Longrightarrow> 2 * (length x - length r) \<le> Suc m \<Longrightarrow>
               parse_value m x = Some (y, r)"
    and ELen: "\<And>x y r. parse_elements n x = Some (y, r) \<Longrightarrow> length r + 2 \<le> length x"
    and ETr: "\<And>x y r m. parse_elements n x = Some (y, r) \<Longrightarrow> 2 * (length x - length r) \<le> m + 2 \<Longrightarrow>
               parse_elements m x = Some (y, r)"
    and MLen: "\<And>x y r. parse_members n x = Some (y, r) \<Longrightarrow> length r + 2 \<le> length x"
    and MTr: "\<And>x y r m. parse_members n x = Some (y, r) \<Longrightarrow> 2 * (length x - length r) \<le> m + 2 \<Longrightarrow>
               parse_members m x = Some (y, r)"
    by blast+
  have ELen': "\<And>x y r. parse_elements n x = Some (y, r) \<Longrightarrow> length r < length x"
    using ELen by fastforce
  have MLen': "\<And>x y r. parse_members n x = Some (y, r) \<Longrightarrow> length r < length x"
    using MLen by fastforce
  have V: "length r < length cs
       \<and> (\<forall>m. 2 * (length cs - length r) \<le> Suc m \<longrightarrow> parse_value m cs = Some (v, r))"
    if p: "parse_value (Suc n) cs = Some (v, r)" for cs v r
  proof (intro conjI allI impI)
    show l: "length r < length cs" using p ELen' MLen' by (rule value_length)
    fix m assume b: "2 * (length cs - length r) \<le> Suc m"
    with l obtain m' where m: "m = Suc m'" by (cases m) auto
    have "parse_value (Suc m') cs = Some (v, r)"
    proof (rule value_transfer [OF p])
      fix x y assume x: "length x < length cs" and e: "parse_elements n x = Some (y, r)"
      from ELen [OF e] x b m have "2 * (length x - length r) \<le> m' + 2" by linarith
      with e show "parse_elements m' x = Some (y, r)" by (rule ETr)
    next
      fix x y assume x: "length x < length cs" and e: "parse_members n x = Some (y, r)"
      from MLen [OF e] x b m have "2 * (length x - length r) \<le> m' + 2" by linarith
      with e show "parse_members m' x = Some (y, r)" by (rule MTr)
    qed
    then show "parse_value m cs = Some (v, r)" by (simp add: m)
  qed
  have E: "length r + 2 \<le> length cs
       \<and> (\<forall>m. 2 * (length cs - length r) \<le> m + 2 \<longrightarrow> parse_elements m cs = Some (vs, r))"
    if p: "parse_elements (Suc n) cs = Some (vs, r)" for cs vs r
  proof (intro conjI allI impI)
    show l: "length r + 2 \<le> length cs" using p VLen ELen by (rule elements_length)
    fix m assume b: "2 * (length cs - length r) \<le> m + 2"
    with l obtain m' where m: "m = Suc m'" by (cases m) auto
    have "parse_elements (Suc m') cs = Some (vs, r)"
    proof (rule elements_transfer [OF p])
      fix y r' assume v: "parse_value n cs = Some (y, r')" and r: "length r < length r'"
      from VLen [OF v] r b m have "2 * (length cs - length r') \<le> Suc m'" by linarith
      with v show "parse_value m' cs = Some (y, r')" by (rule VTr)
    next
      fix x ys y r' assume v: "parse_value n cs = Some (y, r')" and x: "length x < length r'"
        and e: "parse_elements n x = Some (ys, r)"
      from VLen [OF v] ELen [OF e] x b m have "2 * (length x - length r) \<le> m' + 2" by linarith
      with e show "parse_elements m' x = Some (ys, r)" by (rule ETr)
    next
      fix x ys assume "parse_elements n x = Some (ys, r)"
      then show "length r < length x" by (rule ELen')
    qed
    then show "parse_elements m cs = Some (vs, r)" by (simp add: m)
  qed
  have M: "length r + 2 \<le> length cs
       \<and> (\<forall>m. 2 * (length cs - length r) \<le> m + 2 \<longrightarrow> parse_members m cs = Some (ms, r))"
    if p: "parse_members (Suc n) cs = Some (ms, r)" for cs ms r
  proof (intro conjI allI impI)
    show l: "length r + 2 \<le> length cs" using p VLen MLen by (rule members_length)
    fix m assume b: "2 * (length cs - length r) \<le> m + 2"
    with l obtain m' where m: "m = Suc m'" by (cases m) auto
    have "parse_members (Suc m') cs = Some (ms, r)"
    proof (rule members_transfer [OF p])
      fix x y r' assume x: "length x + 2 \<le> length cs" and v: "parse_value n x = Some (y, r')"
        and r: "length r < length r'"
      from VLen [OF v] x r b m have "2 * (length x - length r') \<le> Suc m'" by linarith
      with v show "parse_value m' x = Some (y, r')" by (rule VTr)
    next
      fix x ys assume x: "length x + 4 \<le> length cs" and e: "parse_members n x = Some (ys, r)"
      from MLen [OF e] x b m have "2 * (length x - length r) \<le> m' + 2" by linarith
      with e show "parse_members m' x = Some (ys, r)" by (rule MTr)
    next
      fix x y r' assume "parse_value n x = Some (y, r')"
      then show "length r' < length x" by (rule VLen)
    next
      fix x ys assume "parse_members n x = Some (ys, r)"
      then show "length r < length x" by (rule MLen')
    qed
    then show "parse_members m cs = Some (ms, r)" by (simp add: m)
  qed
  from V E M show ?case by blast
qed

lemma parse_value_fuel:
  assumes "parse_value n cs = Some (v, r)"
  shows "parse_value (Suc (2 * length cs)) cs = Some (v, r)"
proof -
  from fuel_adequate [of n] assms
  have "\<forall>m. 2 * (length cs - length r) \<le> Suc m \<longrightarrow> parse_value m cs = Some (v, r)"
    by blast
  moreover have "2 * (length cs - length r) \<le> Suc (Suc (2 * length cs))" by simp
  ultimately show ?thesis by blast
qed

lemma JSON_parse_SyntaxError:
  "(JSON_parse s = Inl SyntaxError) = (\<forall>n v r. parse_value n s = Some (v, r) \<longrightarrow> skip_ws r \<noteq> [])"
proof
  assume a: "JSON_parse s = Inl SyntaxError"
  show "\<forall>n v r. parse_value n s = Some (v, r) \<longrightarrow> skip_ws r \<noteq> []"
  proof (intro allI impI)
    fix n v r assume "parse_value n s = Some (v, r)"
    then have "parse_value (Suc (2 * length s)) s = Some (v, r)" by (rule parse_value_fuel)
    with a show "skip_ws r \<noteq> []" by (auto simp: JSON_parse_def split: if_splits)
  qed
next
  assume a: "\<forall>n v r. parse_value n s = Some (v, r) \<longrightarrow> skip_ws r \<noteq> []"
  then show "JSON_parse s = Inl SyntaxError"
    by (auto simp: JSON_parse_def split: option.splits)
qed

section \<open>The photo store\<close>

lemma handleDelete_simps:
  "photos (handleDelete i a) = filter (\<lambda>p. id_photo p \<noteq> i) (photos a)"
  "recentPhotoId (handleDelete i a) = recentPhotoId a"
  "pending (handleDelete i a) = pending a"
  by (simp_all add: handleDelete_def)

text \<open>
  Claim C8. For every state and every id, \<open>handleDelete\<close> (the store's remove) leaves no entry
  with that id, keeps the remaining entries in their relative order (the result is a
  subsequence of the store, shorter by exactly the number of entries with that id), and does
  not touch the tracker; with an id that no photo has, the state is unchanged; and removing
  the same id a second time changes nothing.
\<close>

theorem handleDelete_remove:
  "i \<notin> id_photo ` set (photos (handleDelete i a))
   \<and> subseq (photos (handleDelete i a)) (photos a)
   \<and> length (photos (handleDelete i a)) + length (filter (\<lambda>p. id_photo p = i) (photos a))
        = length (photos a)
   \<and> recentPhotoId (handleDelete i a) = recentPhotoId a
   \<and> (i \<notin> id_photo ` set (photos a) \<longrightarrow> handleDelete i a = a)
   \<and> handleDelete i (handleDelete i a) = handleDelete i a"
proof -
  have 1: "i \<notin> id_photo ` set (photos (handleDelete i a))"
    by (auto simp: handleDelete_simps)
  have 2: "subseq (photos (handleDelete i a)) (photos a)"
    by (simp add: handleDelete_simps)
  have 3: "length (photos (handleDelete i a)) + length (filter (\<lambda>p. id_photo p = i) (photos a))
        = length (photos a)"
    using sum_length_filter_compl [of "\<lambda>p. id_photo p = i" "photos a"]
    by (simp add: handleDelete_simps)
  have 5: "handleDelete i a = a" if "i \<notin> id_photo ` set (photos a)"
  proof -
    from that have "filter (\<lambda>p. id_photo p \<noteq> i) (photos a) = photos a"
      by (auto simp: filter_id_conv)
    then show ?thesis by (simp add: handleDelete_def)
  qed
  have 6: "handleDelete i (handleDelete i a) = handleDelete i a"
    by (simp add: handleDelete_def)
  from 1 2 3 5 6 show ?thesis by (simp add: handleDelete_simps)
qed

text \<open>
  At the scenario state: deleting A leaves exactly B, deleting an id that no photo has changes
  nothing, and deleting A twice is deleting it once.
\<close>

theorem handleDelete_remove_witness:
  "js ''1000'' \<notin> id_photo ` set (photos (handleDelete (js ''1000'') app_BA))
   \<and> photos (handleDelete (js ''1000'') app_BA) = [photo_B]
   \<and> js ''3000'' \<notin> id_photo ` set (photos app_BA)
   \<and> handleDelete (js ''3000'') app_BA = app_BA
   \<and> handleDelete (js ''1000'') (handleDelete (js ''1000'') app_BA) = handleDelete (js ''1000'') app_BA"
proof -
  have h: "js ''3000'' \<notin> id_photo ` set (photos app_BA)"
    by (simp add: app_BA_def photo_A_def photo_B_def js_def)
  have e: "photos (handleDelete (js ''1000'') app_BA) = [photo_B]"
    by (simp add: handleDelete_simps app_BA_def photo_A_def photo_B_def js_def)
  from handleDelete_remove [of "js ''3000''" app_BA] h
  have a: "handleDelete (js ''3000'') app_BA = app_BA" by blast
  from handleDelete_remove [of "js ''1000''" app_BA]
  have b: "js ''1000'' \<notin> id_photo ` set (photos (handleDelete (js ''1000'') app_BA))"
    and c: "handleDelete (js ''1000'') (handleDelete (js ''1000'') app_BA)
              = handleDelete (js ''1000'') app_BA"
    by blast+
  from a b c e h show ?thesis by blast
qed

section \<open>The cards and their controls\<close>

lemma InstantPhoto_developing: "InstantPhoto p True cs = []"
  by (simp add: InstantPhoto_def)

lemma InstantPhoto_developed:
  "InstantPhoto p False cs = [DeleteButton, CopyButton (isProcessing cs), DownloadButton (isProcessing cs)]"
  by (simp add: InstantPhoto_def)

lemma click_delete_Some:
  assumes "click_delete local i a = Some a'"
  shows "i < length (photos a)" and "\<not> isDeveloping a (photos a ! i)"
    and "a' = handleDelete (id_photo (photos a ! i)) a"
proof -
  from assms show i: "i < length (photos a)"
    by (simp add: click_delete_def split: if_splits)
  from assms i have "DeleteButton \<in> set (InstantPhoto (photos a ! i) (isDeveloping a (photos a ! i))
      (local (id_photo (photos a ! i))))"
    by (simp add: click_delete_def App_cards_def split: if_splits)
  then show "\<not> isDeveloping a (photos a ! i)"
    by (cases "isDeveloping a (photos a ! i)") (simp_all add: InstantPhoto_developing)
  from assms show "a' = handleDelete (id_photo (photos a ! i)) a"
    by (simp add: click_delete_def split: if_splits)
qed

lemma app_BA_facts:
  "isDeveloping app_BA photo_B" "\<not> isDeveloping app_BA photo_A"
  "photos app_BA = [photo_B, photo_A]"
  by (simp_all add: isDeveloping_def app_BA_def photo_A_def photo_B_def js_def)







section \<open>The Frame Normalizer\<close>

lemma processImage_draw_size:
  "width (processImage_draw v) = 600" "height (processImage_draw v) = 600"
  by (simp_all add: processImage_draw_def Let_def)

lemma processImage_draw_first:
  "take 1 (ops (processImage_draw v)) =
     [DrawImage (VideoFrame v)
        ((of_nat (videoWidth v) - of_nat (min (videoWidth v) (videoHeight v))) / 2)
        ((of_nat (videoHeight v) - of_nat (min (videoWidth v) (videoHeight v))) / 2)
        (of_nat (min (videoWidth v) (videoHeight v))) (of_nat (min (videoWidth v) (videoHeight v)))
        0 0 600 600]"
  by (simp add: processImage_draw_def Let_def)

lemma processImage_context:
  "context2d pf \<Longrightarrow>
   processImage pf v = toDataURL pf (processImage_draw v) (js ''image/jpeg'') (Some (7 / 10))"
  by (simp add: processImage_def)

lemma processImage_no_context: "\<not> context2d pf \<Longrightarrow> processImage pf v = []"
  by (simp add: processImage_def)

text \<open>
  Claim C6. For a video of positive width and height, the canvas of \<open>processImage\<close> is 600
  by 600 whatever the aspect ratio, and its first drawing call copies, onto the whole canvas, the
  square of side \<open>minDim = min width height\<close> at the offsets \<open>(width - minDim) / 2\<close> and
  \<open>(height - minDim) / 2\<close>. That square has a positive side and lies in the frame with equal
  margins on opposite sides. With a context, the result of \<open>processImage\<close> is the encoding
  of this canvas.
\<close>

theorem processImage_square_crop:
  assumes "0 < videoWidth v" and "0 < videoHeight v"
  shows "width (processImage_draw v) = 600 \<and> height (processImage_draw v) = 600
    \<and> (\<exists>minDim startX startY.
          minDim = min (videoWidth v) (videoHeight v)
          \<and> startX = (of_nat (videoWidth v) - of_nat minDim) / 2
          \<and> startY = (of_nat (videoHeight v) - of_nat minDim) / 2
          \<and> take 1 (ops (processImage_draw v)) =
               [DrawImage (VideoFrame v) startX startY (of_nat minDim) (of_nat minDim) 0 0 600 600]
          \<and> 0 < minDim
          \<and> 0 \<le> startX \<and> startX + of_nat minDim + startX = of_nat (videoWidth v)
          \<and> 0 \<le> startY \<and> startY + of_nat minDim + startY = of_nat (videoHeight v))
    \<and> (context2d pf \<longrightarrow>
          processImage pf v = toDataURL pf (processImage_draw v) (js ''image/jpeg'') (Some (7 / 10)))"
proof -
  define m where "m = min (videoWidth v) (videoHeight v)"
  have pos: "0 < m" using assms by (simp add: m_def)
  have mw: "m \<le> videoWidth v" and mh: "m \<le> videoHeight v" by (simp_all add: m_def)
  have x0: "(0::rat) \<le> (of_nat (videoWidth v) - of_nat m) / 2" using mw by simp
  have y0: "(0::rat) \<le> (of_nat (videoHeight v) - of_nat m) / 2" using mh by simp
  have xc: "(of_nat (videoWidth v) - of_nat m) / 2 + of_nat m + (of_nat (videoWidth v) - of_nat m) / 2
              = (of_nat (videoWidth v) :: rat)"
    by (simp add: field_simps)
  have yc: "(of_nat (videoHeight v) - of_nat m) / 2 + of_nat m + (of_nat (videoHeight v) - of_nat m) / 2
              = (of_nat (videoHeight v) :: rat)"
    by (simp add: field_simps)
  have crop: "\<exists>minDim startX startY.
          minDim = min (videoWidth v) (videoHeight v)
          \<and> startX = (of_nat (videoWidth v) - of_nat minDim) / 2
          \<and> startY = (of_nat (videoHeight v) - of_nat minDim) / 2
          \<and> take 1 (ops (processImage_draw v)) =
               [DrawImage (VideoFrame v) startX startY (of_nat minDim) (of_nat minDim) 0 0 600 600]
          \<and> 0 < minDim
          \<and> 0 \<le> startX \<and> startX + of_nat minDim + startX = of_nat (videoWidth v)
          \<and> 0 \<le> startY \<and> startY + of_nat minDim + startY = of_nat (videoHeight v)"
    using pos x0 y0 xc yc processImage_draw_first [of v] unfolding m_def by blast
  from crop processImage_draw_size [of v] processImage_context [of pf v]
  show ?thesis by blast
qed

text \<open>
  The example of the specification: a 1920 by 1080 video and a 1080 by 1920 video both give a
  600 by 600 canvas, cropped at (420, 0) and at (0, 420).
\<close>

theorem processImage_square_crop_witness:
  "0 < videoWidth video_landscape \<and> 0 < videoHeight video_landscape
   \<and> 0 < videoWidth video_portrait \<and> 0 < videoHeight video_portrait
   \<and> width (processImage_draw video_landscape) = 600 \<and> height (processImage_draw video_landscape) = 600
   \<and> width (processImage_draw video_portrait) = 600 \<and> height (processImage_draw video_portrait) = 600
   \<and> take 1 (ops (processImage_draw video_landscape)) =
        [DrawImage (VideoFrame video_landscape) 420 0 1080 1080 0 0 600 600]
   \<and> take 1 (ops (processImage_draw video_portrait)) =
        [DrawImage (VideoFrame video_portrait) 0 420 1080 1080 0 0 600 600]
   \<and> processImage platform_0 video_landscape = processImage platform_0 video_portrait"
proof -
  have l: "0 < videoWidth video_landscape" "0 < videoHeight video_landscape"
    and p: "0 < videoWidth video_portrait" "0 < videoHeight video_portrait"
    by (simp_all add: video_landscape_def video_portrait_def)
  have c: "context2d platform_0" by (simp add: platform_0_def)
  have e: "toDataURL platform_0 c1 t q = toDataURL platform_0 c2 t q" for c1 c2 t q
    by (simp add: platform_0_def)
  from processImage_square_crop [OF l, of platform_0] processImage_square_crop [OF p, of platform_0]
    l p c e [of "processImage_draw video_landscape" _ _ "processImage_draw video_portrait"]
  show ?thesis
    by (simp add: video_landscape_def video_portrait_def)
qed

text \<open>
  Claim C4, as stated, fails: with a video element of zero area, the shutter callback still
  creates a photo and puts it into the store.
\<close>

theorem normalizer_failure_counterexample:
  "videoRef camera_0 = Some video_0
   \<and> videoWidth video_0 * videoHeight video_0 = 0
   \<and> photos initial_app = []
   \<and> photos (shutter_capture platform_0 camera_0 200 1000 1000 initial_app) =
        [\<lparr>id_photo = js ''1000'', dataUrl = js ''data:image/jpeg;base64,AAAA'', timestamp = 1000\<rparr>]"
  by (simp add: camera_0_def video_0_def initial_app_def shutter_capture_def shutter_timeout_def
      handleCapture_def processImage_def platform_0_def Number_toString_def js_def digits.simps
      digit_char_def)

text \<open>
  Claim C4, amended. Without a rendering context \<open>processImage\<close> returns the empty string.
  A video of zero area is not a failure: whenever there is a context, \<open>processImage\<close>
  returns the encoding of its 600 by 600 canvas, and the shutter callback creates a photo
  with that payload at the front of the store. No photo is created when the video element is
  absent.
\<close>

theorem normalizer_failure:
  "(\<not> context2d pf \<longrightarrow> processImage pf v = [])
   \<and> (context2d pf \<longrightarrow>
        processImage pf v = toDataURL pf (processImage_draw v) (js ''image/jpeg'') (Some (7 / 10)))
   \<and> (context2d pf \<and> videoRef c = Some v \<longrightarrow>
        photos (shutter_capture pf c t now1 now2 a) =
          \<lparr>id_photo = Number_toString now1,
            dataUrl = toDataURL pf (processImage_draw v) (js ''image/jpeg'') (Some (7 / 10)),
            timestamp = now2\<rparr> # photos a)
   \<and> (videoRef c = None \<longrightarrow> shutter_capture pf c t now1 now2 a = a)"
  by (simp add: processImage_def shutter_capture_def shutter_timeout_def handleCapture_def)

text \<open>
  Without a context the payload is empty; with the zero-area video and a context a photo is
  added to the two of the scenario state; without a video element the state is unchanged.
\<close>

theorem normalizer_failure_witness:
  "\<not> context2d (platform_0\<lparr>context2d := False\<rparr>)
   \<and> processImage (platform_0\<lparr>context2d := False\<rparr>) video_landscape = []
   \<and> context2d platform_0 \<and> videoRef camera_0 = Some video_0
   \<and> processImage platform_0 video_0 = js ''data:image/jpeg;base64,AAAA''
   \<and> length (photos (shutter_capture platform_0 camera_0 200 1000 1000 app_BA)) = 3
   \<and> videoRef (camera_0\<lparr>videoRef := None\<rparr>) = None
   \<and> shutter_capture platform_0 (camera_0\<lparr>videoRef := None\<rparr>) 200 1000 1000 app_BA = app_BA"
proof -
  have n: "\<not> context2d (platform_0\<lparr>context2d := False\<rparr>)" by simp
  have c: "context2d platform_0" "videoRef camera_0 = Some video_0"
    by (simp_all add: platform_0_def camera_0_def)
  have u: "toDataURL platform_0 k (js ''image/jpeg'') q = js ''data:image/jpeg;base64,AAAA''" for k q
    by (simp add: platform_0_def js_def)
  have v: "videoRef (camera_0\<lparr>videoRef := None\<rparr>) = None" by simp
  from normalizer_failure [of "platform_0\<lparr>context2d := False\<rparr>" video_landscape camera_0 200 1000 1000 app_BA] n
  have 1: "processImage (platform_0\<lparr>context2d := False\<rparr>) video_landscape = []" by blast
  from normalizer_failure [of platform_0 video_0 camera_0 200 1000 1000 app_BA] c u
  have 2: "processImage platform_0 video_0 = js ''data:image/jpeg;base64,AAAA''"
    and 3: "length (photos (shutter_capture platform_0 camera_0 200 1000 1000 app_BA)) = 3"
    by (simp_all add: app_BA_facts)
  from normalizer_failure [of platform_0 video_0 "camera_0\<lparr>videoRef := None\<rparr>" 200 1000 1000 app_BA] v
  have 4: "shutter_capture platform_0 (camera_0\<lparr>videoRef := None\<rparr>) 200 1000 1000 app_BA = app_BA"
    by blast
  from n c 1 2 3 4 v show ?thesis by blast
qed

section \<open>The develop state tracker\<close>

lemma handleCapture_simps:
  "photos (handleCapture t now1 now2 url a) =
     \<lparr>id_photo = Number_toString now1, dataUrl = url, timestamp = now2\<rparr> # photos a"
  "recentPhotoId (handleCapture t now1 now2 url a) = Some (Number_toString now1)"
  "pending (handleCapture t now1 now2 url a) = pending a @ [t + DEVELOP_TIME_MS]"
  by (simp_all add: handleCapture_def)

lemma foldl_develop_timeout:
  "foldl (\<lambda>s d. develop_timeout s) s ds = (if ds = [] then s else develop_timeout s)"
proof (induction ds arbitrary: s)
  case Nil
  show ?case by simp
next
  case (Cons d ds)
  have "develop_timeout (develop_timeout s) = develop_timeout s"
    by (simp add: develop_timeout_def)
  with Cons show ?case by simp
qed

lemma advance_simps:
  "photos (advance t a) = photos a"
  "pending (advance t a) = filter (\<lambda>d. t < d) (pending a)"
  "recentPhotoId (advance t a) = (if \<exists>d \<in> set (pending a). d \<le> t then None else recentPhotoId a)"
  unfolding advance_def foldl_develop_timeout
  by (auto simp: develop_timeout_def filter_empty_conv)

lemma Number_toString_1000: "Number_toString 1000 = js ''1000''"
  by (simp add: Number_toString_def digits.simps digit_char_def js_def)

lemma Number_toString_2000: "Number_toString 2000 = js ''2000''"
  by (simp add: Number_toString_def digits.simps digit_char_def js_def)

lemma scenario_app_BA:
  "capture_at 2000 2000 2000 (js ''data:B'') (capture_at 1000 1000 1000 (js ''data:A'') initial_app)
     = app_BA"
  by (simp add: capture_at_def handleCapture_def advance_def initial_app_def app_BA_def
      photo_A_def photo_B_def DEVELOP_TIME_MS_def Number_toString_1000 Number_toString_2000)

text \<open>
  Claim C3, as stated, fails. In the scenario, A is captured at 1000 and B at 2000, while A
  develops. At 2800, inside B's window of 1800 ms, the time-out of A's capture runs and
  clears the tracker: B is no longer Developing.
\<close>

theorem stale_timer_counterexample:
  "capture_at 2000 2000 2000 (js ''data:B'') (capture_at 1000 1000 1000 (js ''data:A'') initial_app)
     = app_BA
   \<and> isDeveloping app_BA photo_B
   \<and> 2000 \<le> (2800::nat) \<and> 2800 < 2000 + DEVELOP_TIME_MS
   \<and> photos (advance 2800 app_BA) = [photo_B, photo_A]
   \<and> recentPhotoId (advance 2800 app_BA) = None
   \<and> \<not> isDeveloping (advance 2800 app_BA) photo_B"
  by (simp add: scenario_app_BA app_BA_facts advance_simps isDeveloping_def DEVELOP_TIME_MS_def)
     (simp add: app_BA_def photo_B_def)

text \<open>
  Claim C3, amended. A capture sets the tracker to the new photo's id at once. The callback
  of a develop time-out clears the tracker whatever id it holds (there is no check of
  identity), so after a capture at time \<open>t\<close> the new photo is Developing at a later time
  exactly as long as no pending time-out has come due, neither its own (due at \<open>t + 1800\<close>)
  nor one left by an earlier capture: a time-out of an earlier capture that is due ends the
  Developing state of the newer photo.
\<close>

theorem develop_window:
  "recentPhotoId (handleCapture t now1 now2 url a) = Some (Number_toString now1)
   \<and> recentPhotoId (advance t' (handleCapture t now1 now2 url a)) =
       (if \<exists>d \<in> set (pending a @ [t + DEVELOP_TIME_MS]). d \<le> t' then None
        else Some (Number_toString now1))
   \<and> (d \<in> set (pending a) \<and> d \<le> t' \<longrightarrow>
         \<not> isDeveloping (advance t' (handleCapture t now1 now2 url a)) p)"
  by (auto simp: advance_simps handleCapture_simps isDeveloping_def)

text \<open>
  In the scenario: B is Developing right after its capture at 2000 and still at 2500; the
  time-out of A's capture, due at 2800, ends it.
\<close>

theorem develop_window_witness:
  "recentPhotoId (handleCapture 2000 2000 2000 (js ''data:B'') (advance 2000 (capture_at 1000 1000 1000 (js ''data:A'') initial_app)))
     = Some (js ''2000'')
   \<and> recentPhotoId (advance 2500 (handleCapture 2000 2000 2000 (js ''data:B'')
        (advance 2000 (capture_at 1000 1000 1000 (js ''data:A'') initial_app)))) = Some (js ''2000'')
   \<and> 2800 \<in> set (pending (advance 2000 (capture_at 1000 1000 1000 (js ''data:A'') initial_app)))
   \<and> recentPhotoId (advance 2800 (handleCapture 2000 2000 2000 (js ''data:B'')
        (advance 2000 (capture_at 1000 1000 1000 (js ''data:A'') initial_app)))) = None
   \<and> \<not> isDeveloping (advance 2800 (handleCapture 2000 2000 2000 (js ''data:B'')
        (advance 2000 (capture_at 1000 1000 1000 (js ''data:A'') initial_app)))) photo_B"
proof -
  define s where "s = advance 2000 (capture_at 1000 1000 1000 (js ''data:A'') initial_app)"
  have p: "pending s = [2800]"
    by (simp add: s_def advance_simps capture_at_def handleCapture_simps initial_app_def
        DEVELOP_TIME_MS_def)
  have m: "(2800::nat) \<in> set (pending s) \<and> (2800::nat) \<le> 2800" by (simp add: p)
  note w1 = develop_window [of 2000 2000 2000 "js ''data:B''" s 2500 2800 photo_B]
  note w2 = develop_window [of 2000 2000 2000 "js ''data:B''" s 2800 2800 photo_B]
  from w1 have 1: "recentPhotoId (handleCapture 2000 2000 2000 (js ''data:B'') s) = Some (js ''2000'')"
    by (simp add: Number_toString_2000)
  from w1 have 2: "recentPhotoId (advance 2500 (handleCapture 2000 2000 2000 (js ''data:B'') s))
      = Some (js ''2000'')"
    by (simp add: p DEVELOP_TIME_MS_def Number_toString_2000)
  from w2 have 3: "recentPhotoId (advance 2800 (handleCapture 2000 2000 2000 (js ''data:B'') s)) = None"
    by (simp add: p DEVELOP_TIME_MS_def)
  from w2 m have 4: "\<not> isDeveloping (advance 2800 (handleCapture 2000 2000 2000 (js ''data:B'') s)) photo_B"
    by blast
  from 1 2 3 4 m show ?thesis unfolding s_def by blast
qed

section \<open>Deletion and the develop state\<close>

lemma click_delete_newest:
  "click_delete local 0 (advance t' (handleCapture t now1 now2 url b)) =
     (if \<exists>d \<in> set (pending b @ [t + DEVELOP_TIME_MS]). d \<le> t'
      then Some (handleDelete (Number_toString now1) (advance t' (handleCapture t now1 now2 url b)))
      else None)"
proof -
  define s where "s = advance t' (handleCapture t now1 now2 url b)"
  define p where "p = \<lparr>id_photo = Number_toString now1, dataUrl = url, timestamp = now2\<rparr>"
  have ph: "photos s = p # photos b"
    by (simp add: s_def p_def advance_simps handleCapture_simps)
  have r: "recentPhotoId s =
      (if \<exists>d \<in> set (pending b @ [t + DEVELOP_TIME_MS]). d \<le> t' then None
       else Some (Number_toString now1))"
    by (simp add: s_def advance_simps handleCapture_simps)
  have d: "isDeveloping s p = (\<not> (\<exists>d \<in> set (pending b @ [t + DEVELOP_TIME_MS]). d \<le> t'))"
    by (simp add: isDeveloping_def r p_def)
  have i: "id_photo p = Number_toString now1" by (simp add: p_def)
  have "click_delete local 0 s =
      (if \<exists>d \<in> set (pending b @ [t + DEVELOP_TIME_MS]). d \<le> t'
       then Some (handleDelete (Number_toString now1) s) else None)"
  proof (cases "\<exists>d \<in> set (pending b @ [t + DEVELOP_TIME_MS]). d \<le> t'")
    case True
    with d have "\<not> isDeveloping s p" by simp
    then show ?thesis
      using True by (simp add: click_delete_def App_cards_def ph InstantPhoto_developed i)
  next
    case False
    with d have "isDeveloping s p" by simp
    then show ?thesis
      using False by (simp add: click_delete_def App_cards_def ph InstantPhoto_developing)
  qed
  then show ?thesis by (simp add: s_def)
qed

text \<open>
  Claim C10, as stated, fails. In the scenario B is captured at 2000, so its develop window
  lasts until 3800, and no capture follows it. At 2800 the time-out of A's capture has
  cleared the tracker: B's card has a delete button, and a click on it removes B from the
  store.
\<close>

theorem early_delete_counterexample:
  "capture_at 2000 2000 2000 (js ''data:B'') (capture_at 1000 1000 1000 (js ''data:A'') initial_app)
     = app_BA
   \<and> (2800::nat) < 2000 + DEVELOP_TIME_MS
   \<and> photos (advance 2800 app_BA) = [photo_B, photo_A]
   \<and> click_delete no_local 0 (advance 2800 app_BA)
        = Some (handleDelete (js ''2000'') (advance 2800 app_BA))
   \<and> photos (handleDelete (js ''2000'') (advance 2800 app_BA)) = [photo_A]"
proof -
  have r: "recentPhotoId (advance 2800 app_BA) = None"
    by (simp add: advance_simps app_BA_def)
  have p: "photos (advance 2800 app_BA) = [photo_B, photo_A]"
    by (simp add: advance_simps app_BA_facts)
  have n: "\<not> isDeveloping (advance 2800 app_BA) photo_B"
    by (simp add: isDeveloping_def r)
  have i: "id_photo photo_B = js ''2000''" by (simp add: photo_B_def)
  have c: "click_delete no_local 0 (advance 2800 app_BA)
        = Some (handleDelete (js ''2000'') (advance 2800 app_BA))"
    using n by (simp add: click_delete_def App_cards_def p InstantPhoto_developed i)
  have d: "photos (handleDelete (js ''2000'') (advance 2800 app_BA)) = [photo_A]"
    by (simp add: handleDelete_simps p photo_A_def photo_B_def js_def)
  from scenario_app_BA p c d show ?thesis by (simp add: DEVELOP_TIME_MS_def)
qed

text \<open>
  Claim C10, amended. A card whose photo is Developing has no delete button, so there is no
  click that deletes it; a deletion that the interface does offer leaves the tracker and
  every Developing photo of the store as they are. The protection lasts as long as the
  tracker holds the photo's id, not for the photo's own window of 1800 ms: after a capture
  at time \<open>t\<close>, the delete control of the new photo is absent at a later time exactly as
  long as no pending develop time-out has come due, neither its own (due at \<open>t + 1800\<close>)
  nor one left by an earlier capture; from then on the control is there and a click on it
  removes the photo.
\<close>

theorem developing_not_deletable:
  "(isDeveloping a p \<longrightarrow> DeleteButton \<notin> set (InstantPhoto p (isDeveloping a p) cs))
   \<and> (i < length (photos a) \<and> isDeveloping a (photos a ! i) \<longrightarrow> click_delete local i a = None)
   \<and> (click_delete local j a = Some a' \<longrightarrow>
         recentPhotoId a' = recentPhotoId a
         \<and> filter (isDeveloping a) (photos a') = filter (isDeveloping a) (photos a))
   \<and> click_delete local 0 (advance t' (handleCapture t now1 now2 url b)) =
        (if \<exists>d \<in> set (pending b @ [t + DEVELOP_TIME_MS]). d \<le> t'
         then Some (handleDelete (Number_toString now1)
                (advance t' (handleCapture t now1 now2 url b)))
         else None)"
proof (intro conjI impI)
  assume "isDeveloping a p"
  then show "DeleteButton \<notin> set (InstantPhoto p (isDeveloping a p) cs)"
    by (simp add: InstantPhoto_developing)
next
  assume "i < length (photos a) \<and> isDeveloping a (photos a ! i)"
  then show "click_delete local i a = None"
    by (simp add: click_delete_def App_cards_def InstantPhoto_developing)
next
  assume c: "click_delete local j a = Some a'"
  note s = click_delete_Some [OF c]
  show "recentPhotoId a' = recentPhotoId a"
    by (simp add: s(3) handleDelete_simps)
  have "\<And>p. isDeveloping a p \<Longrightarrow> id_photo p \<noteq> id_photo (photos a ! j)"
    using s(2) by (auto simp: isDeveloping_def)
  then have "filter (isDeveloping a) (filter (\<lambda>p. id_photo p \<noteq> id_photo (photos a ! j)) (photos a))
      = filter (isDeveloping a) (photos a)"
    by (auto simp: filter_filter intro: filter_cong)
  then show "filter (isDeveloping a) (photos a') = filter (isDeveloping a) (photos a)"
    by (simp add: s(3) handleDelete_simps)
next
  show "click_delete local 0 (advance t' (handleCapture t now1 now2 url b)) =
        (if \<exists>d \<in> set (pending b @ [t + DEVELOP_TIME_MS]). d \<le> t'
         then Some (handleDelete (Number_toString now1)
                (advance t' (handleCapture t now1 now2 url b)))
         else None)"
    by (rule click_delete_newest)
qed

text \<open>
  In the scenario state, where B develops: B's card has no delete button and cannot be
  clicked away, and deleting A through its card keeps B. After B's capture at 2000 its
  delete control is absent at 2500 and present at 2800, when the time-out of A's capture
  has run.
\<close>

theorem developing_not_deletable_witness:
  "isDeveloping app_BA photo_B
   \<and> DeleteButton \<notin> set (InstantPhoto photo_B (isDeveloping app_BA photo_B) (no_local (id_photo photo_B)))
   \<and> click_delete no_local 0 app_BA = None
   \<and> click_delete no_local 1 app_BA = Some (handleDelete (js ''1000'') app_BA)
   \<and> filter (isDeveloping app_BA) (photos (handleDelete (js ''1000'') app_BA)) = [photo_B]
   \<and> click_delete no_local 0 (advance 2500 (handleCapture 2000 2000 2000 (js ''data:B'')
        (advance 2000 (capture_at 1000 1000 1000 (js ''data:A'') initial_app)))) = None
   \<and> click_delete no_local 0 (advance 2800 (handleCapture 2000 2000 2000 (js ''data:B'')
        (advance 2000 (capture_at 1000 1000 1000 (js ''data:A'') initial_app))))
      = Some (handleDelete (js ''2000'') (advance 2800 (handleCapture 2000 2000 2000 (js ''data:B'')
        (advance 2000 (capture_at 1000 1000 1000 (js ''data:A'') initial_app)))))"
proof -
  define s where "s = advance 2000 (capture_at 1000 1000 1000 (js ''data:A'') initial_app)"
  have ps: "pending s = [2800]"
    by (simp add: s_def advance_simps capture_at_def handleCapture_simps initial_app_def
        DEVELOP_TIME_MS_def)
  have c1: "click_delete no_local 1 app_BA = Some (handleDelete (js ''1000'') app_BA)"
    by (simp add: click_delete_def App_cards_def app_BA_facts InstantPhoto_developed)
       (simp add: photo_A_def)
  have f: "filter (isDeveloping app_BA) (photos app_BA) = [photo_B]"
    by (simp add: app_BA_facts)
  note t0 = developing_not_deletable [of app_BA photo_B "no_local (id_photo photo_B)" 0 no_local 1
      "handleDelete (js ''1000'') app_BA" 2500 2000 2000 2000 "js ''data:B''" s]
  note t1 = developing_not_deletable [of app_BA photo_B "no_local (id_photo photo_B)" 0 no_local 1
      "handleDelete (js ''1000'') app_BA" 2800 2000 2000 2000 "js ''data:B''" s]
  from t0 app_BA_facts(1) have a: "DeleteButton \<notin> set (InstantPhoto photo_B (isDeveloping app_BA photo_B)
      (no_local (id_photo photo_B)))"
    by blast
  have d0: "0 < length (photos app_BA) \<and> isDeveloping app_BA (photos app_BA ! 0)"
    by (simp add: app_BA_facts)
  from t0 d0 have b: "click_delete no_local 0 app_BA = None" by blast
  from t0 c1 f have c: "filter (isDeveloping app_BA) (photos (handleDelete (js ''1000'') app_BA)) = [photo_B]"
    by simp
  from t0 have e0: "click_delete no_local 0 (advance 2500 (handleCapture 2000 2000 2000 (js ''data:B'') s))
      = None"
    by (simp add: ps DEVELOP_TIME_MS_def)
  from t1 have e1: "click_delete no_local 0 (advance 2800 (handleCapture 2000 2000 2000 (js ''data:B'') s))
      = Some (handleDelete (js ''2000'') (advance 2800 (handleCapture 2000 2000 2000 (js ''data:B'') s)))"
    by (simp add: ps DEVELOP_TIME_MS_def Number_toString_2000)
  from a b c c1 e0 e1 app_BA_facts(1) show ?thesis unfolding s_def by blast
qed

section \<open>Identifiers\<close>

lemma digits_inj: "digits a = digits b \<Longrightarrow> a = b"
  by (metis nat_of_digits_digits)

lemma minus_digits: "0x2D # digits a \<noteq> digits b"
proof
  assume "0x2D # digits a = digits b"
  then have "hd (digits b) = 0x2D" by (metis list.sel(1))
  with hd_digits_not_minus [of b] show False by blast
qed

lemma Number_toString_inj:
  assumes e: "Number_toString m = Number_toString n"
  shows "m = n"
proof -
  consider "m < 0" "n < 0" | "m < 0" "0 \<le> n" | "0 \<le> m" "n < 0" | "0 \<le> m" "0 \<le> n"
    by linarith
  then show ?thesis
  proof cases
    case 1
    with e have "digits (nat (- m)) = digits (nat (- n))" by (simp add: Number_toString_def)
    then have "nat (- m) = nat (- n)" by (rule digits_inj)
    with 1 show ?thesis by linarith
  next
    case 2
    with e have "0x2D # digits (nat (- m)) = digits (nat n)" by (simp add: Number_toString_def)
    with minus_digits show ?thesis by blast
  next
    case 3
    with e have "0x2D # digits (nat (- n)) = digits (nat m)" by (simp add: Number_toString_def)
    with minus_digits show ?thesis by blast
  next
    case 4
    with e have "digits (nat m) = digits (nat n)" by (simp add: Number_toString_def)
    then have "nat m = nat n" by (rule digits_inj)
    with 4 show ?thesis by linarith
  qed
qed

section \<open>Sequences of captures and deletions\<close>

lemma run_Nil: "run [] s = s"
  by (simp add: run_def)

lemma run_Cons: "run (e # es) s = run es (dispatch e s)"
  by (simp add: run_def)

lemma run_snoc: "run (es @ [e]) s = dispatch e (run es s)"
  by (simp add: run_def)

lemma capture_at_simps:
  "photos (capture_at t now1 now2 url a) =
     \<lparr>id_photo = Number_toString now1, dataUrl = url, timestamp = now2\<rparr> # photos a"
  "recentPhotoId (capture_at t now1 now2 url a) = Some (Number_toString now1)"
  by (simp_all add: capture_at_def handleCapture_simps advance_simps)

lemma photos_dispatch:
  "photos (fst (dispatch e (a, st))) =
     (case e of
        Capture t now1 now2 url \<Rightarrow>
          \<lparr>id_photo = Number_toString now1, dataUrl = url, timestamp = now2\<rparr> # photos a
      | Delete i \<Rightarrow> filter (\<lambda>p. id_photo p \<noteq> i) (photos a))"
  by (cases e) (simp_all add: Let_def capture_at_simps handleDelete_simps)

lemma snd_dispatch: "snd (dispatch e (a, st)) = save_effect (photos (fst (dispatch e (a, st)))) st"
  by (cases e) (simp_all add: Let_def)

declare dispatch.simps [simp del]

lemma photos_run_captures:
  "\<forall>e \<in> set es. is_capture e \<Longrightarrow> photos (fst (run es (a, st))) = new_photos es @ photos a"
proof (induction es arbitrary: a st)
  case Nil
  show ?case by (simp add: run_Nil)
next
  case (Cons e es)
  from Cons.prems obtain t now1 now2 url where e: "e = Capture t now1 now2 url"
    by (cases e) (simp_all add: is_capture_def)
  obtain a1 st1 where d: "dispatch e (a, st) = (a1, st1)" by (cases "dispatch e (a, st)")
  have p: "photos a1 = \<lparr>id_photo = Number_toString now1, dataUrl = url, timestamp = now2\<rparr> # photos a"
    using photos_dispatch [of e a st] d by (simp add: e)
  from Cons.prems have "\<forall>x \<in> set es. is_capture x" by simp
  then have "photos (fst (run es (a1, st1))) = new_photos es @ photos a1" by (rule Cons.IH)
  with d show ?case by (simp add: run_Cons p e)
qed

lemma save_effect_fields:
  "denied (save_effect ps st) = denied st" "accepts (save_effect ps st) = accepts st"
  by (simp_all add: save_effect_def setItem_def)

lemma run_fields:
  "denied (snd (run es (a, st))) = denied st \<and> accepts (snd (run es (a, st))) = accepts st"
proof (induction es arbitrary: a st)
  case Nil
  show ?case by (simp add: run_Nil)
next
  case (Cons e es)
  obtain a1 st1 where d: "dispatch e (a, st) = (a1, st1)" by (cases "dispatch e (a, st)")
  have "st1 = save_effect (photos a1) st" using snd_dispatch [of e a st] by (simp add: d)
  then have "denied st1 = denied st" "accepts st1 = accepts st" by (simp_all add: save_effect_fields)
  with Cons.IH [of a1 st1] show ?case by (simp add: run_Cons d)
qed

lemma save_effect_items:
  "\<not> denied st \<Longrightarrow> accepts st STORAGE_KEY (JSON_stringify (take MAX_STORED_PHOTOS ps)) \<Longrightarrow>
   items (save_effect ps st) STORAGE_KEY = Some (JSON_stringify (take MAX_STORED_PHOTOS ps))"
  by (simp add: save_effect_def setItem_def)

lemma run_items:
  assumes "es \<noteq> []" and "\<not> denied st"
    and "accepts st STORAGE_KEY (JSON_stringify (take MAX_STORED_PHOTOS (photos (fst (run es (a, st))))))"
  shows "items (snd (run es (a, st))) STORAGE_KEY
           = Some (JSON_stringify (take MAX_STORED_PHOTOS (photos (fst (run es (a, st))))))"
proof -
  from assms(1) obtain es' e where es: "es = es' @ [e]" by (cases es rule: rev_cases) auto
  obtain a1 st1 where r: "run es' (a, st) = (a1, st1)" by (cases "run es' (a, st)")
  have f: "denied st1 = denied st" "accepts st1 = accepts st"
    using run_fields [of es' a st] by (simp_all add: r)
  have s: "snd (run es (a, st)) = save_effect (photos (fst (run es (a, st)))) st1"
    using snd_dispatch [of e a1 st1] by (simp add: es run_snoc r)
  show ?thesis
    by (subst s) (rule save_effect_items, simp_all add: f assms)
qed

lemma JSON_stringify_nonempty: "JSON_stringify ps \<noteq> []"
  by (simp add: JSON_stringify_def SerializeJSONArray_def)

lemma load_effect_items:
  "\<not> denied st \<Longrightarrow> items st STORAGE_KEY = Some (JSON_stringify ps) \<Longrightarrow> load_effect st = Loaded ps"
  by (simp add: load_effect_def getItem_def JSON_stringify_nonempty JSON_parse_stringify
      photos_of_json_roundtrip)

lemma id_readings_append: "id_readings (xs @ ys) = id_readings xs @ id_readings ys"
  by (induction xs rule: id_readings.induct) simp_all

lemma ids_run:
  "distinct (id_readings es) \<Longrightarrow>
   distinct (map id_photo (photos (fst (run es (initial_app, st)))))
   \<and> id_photo ` set (photos (fst (run es (initial_app, st)))) \<subseteq> Number_toString ` set (id_readings es)"
proof (induction es rule: rev_induct)
  case Nil
  show ?case by (simp add: run_Nil initial_app_def)
next
  case (snoc e es)
  obtain a1 st1 where r: "run es (initial_app, st) = (a1, st1)" by (cases "run es (initial_app, st)")
  from snoc.prems have de: "distinct (id_readings es)" by (simp add: id_readings_append)
  from snoc.IH [OF de] have ih: "distinct (map id_photo (photos a1))"
    "id_photo ` set (photos a1) \<subseteq> Number_toString ` set (id_readings es)"
    by (simp_all add: r)
  show ?case
  proof (cases e)
    case (Capture t now1 now2 url)
    from snoc.prems have "now1 \<notin> set (id_readings es)"
      by (simp add: id_readings_append Capture)
    then have "Number_toString now1 \<notin> Number_toString ` set (id_readings es)"
      using Number_toString_inj by blast
    with ih have "Number_toString now1 \<notin> id_photo ` set (photos a1)" by blast
    with ih show ?thesis
      using photos_dispatch [of e a1 st1]
      by (auto simp: run_snoc r Capture id_readings_append)
  next
    case (Delete i)
    with ih show ?thesis
      using photos_dispatch [of e a1 st1]
      by (auto simp: run_snoc r Delete id_readings_append distinct_map_filter)
  qed
qed

text \<open>
  Claim C2, as stated, fails: two captures whose calls of \<^verbatim>\<open>Date.now()\<close> read the same
  millisecond create two photos with the same id, and the store then holds that id twice.
\<close>

theorem same_millisecond_counterexample:
  "map id_photo (photos (handleCapture 1000 1000 1000 (js ''data:B'')
      (handleCapture 1000 1000 1000 (js ''data:A'') initial_app))) = [js ''1000'', js ''1000'']
   \<and> dataUrl (photos (handleCapture 1000 1000 1000 (js ''data:B'')
      (handleCapture 1000 1000 1000 (js ''data:A'') initial_app)) ! 0) = js ''data:B''
   \<and> dataUrl (photos (handleCapture 1000 1000 1000 (js ''data:B'')
      (handleCapture 1000 1000 1000 (js ''data:A'') initial_app)) ! 1) = js ''data:A''
   \<and> \<not> distinct (map id_photo (photos (handleCapture 1000 1000 1000 (js ''data:B'')
      (handleCapture 1000 1000 1000 (js ''data:A'') initial_app))))"
  by (simp add: handleCapture_simps initial_app_def Number_toString_1000)

text \<open>
  Claim C2, amended. The id is the decimal text of the clock reading in whole milliseconds:
  the photos of two captures have distinct ids exactly when the readings differ, and the
  same id when the readings coincide. So no id repeats in the store after a sequence of
  captures and deletions whose id readings are pairwise distinct. (The shutter does not start
  a capture while the previous one is printing.)
\<close>

theorem capture_ids:
  "(id_photo (hd (photos (handleCapture t now1 now2 url a)))
      = id_photo (hd (photos (handleCapture t' now1' now2' url' a')))) = (now1 = now1')
   \<and> (distinct (id_readings es) \<longrightarrow>
        distinct (map id_photo (photos (fst (run es (initial_app, st))))))
   \<and> (printing c \<longrightarrow> takePhoto c = (c, []))"
proof -
  have 1: "(id_photo (hd (photos (handleCapture t now1 now2 url a)))
      = id_photo (hd (photos (handleCapture t' now1' now2' url' a')))) = (now1 = now1')"
    using Number_toString_inj [of now1 now1'] by (auto simp: handleCapture_simps)
  have 3: "printing c \<longrightarrow> takePhoto c = (c, [])" by (simp add: takePhoto_def)
  from 1 3 ids_run [of es st] show ?thesis by blast
qed

text \<open>The two captures of the scenario, read at 1000 and at 2000, get distinct ids.\<close>

theorem capture_ids_witness:
  "id_photo (hd (photos (handleCapture 1000 1000 1000 (js ''data:A'') initial_app)))
     \<noteq> id_photo (hd (photos (handleCapture 2000 2000 2000 (js ''data:B'') app_BA)))
   \<and> distinct (id_readings [Capture 1000 1000 1000 (js ''data:A''), Capture 2000 2000 2000 (js ''data:B'')])
   \<and> distinct (map id_photo (photos (fst (run
        [Capture 1000 1000 1000 (js ''data:A''), Capture 2000 2000 2000 (js ''data:B'')]
        (initial_app, storage_0)))))
   \<and> printing camera_0 \<and> takePhoto camera_0 = (camera_0, [])"
proof -
  have d: "distinct (id_readings [Capture 1000 1000 1000 (js ''data:A''), Capture 2000 2000 2000 (js ''data:B'')])"
    by simp
  have p: "printing camera_0" by (simp add: camera_0_def)
  note w = capture_ids [of 1000 1000 1000 "js ''data:A''" initial_app 2000 2000 2000 "js ''data:B''" app_BA
      "[Capture 1000 1000 1000 (js ''data:A''), Capture 2000 2000 2000 (js ''data:B'')]" storage_0 camera_0]
  from w have 1: "id_photo (hd (photos (handleCapture 1000 1000 1000 (js ''data:A'') initial_app)))
     \<noteq> id_photo (hd (photos (handleCapture 2000 2000 2000 (js ''data:B'') app_BA)))"
    by simp
  from w d p 1 show ?thesis by blast
qed

section \<open>Retention and persistence\<close>

lemma length_new_photos: "\<forall>e \<in> set es. is_capture e \<Longrightarrow> length (new_photos es) = length es"
  by (induction es rule: new_photos.induct) (simp_all add: is_capture_def)

lemma captures_51_facts:
  "\<forall>e \<in> set captures_51. is_capture e" "length captures_51 = 51" "captures_51 \<noteq> []"
  "\<forall>e \<in> set (tl captures_51). is_capture e"
proof -
  show a: "\<forall>e \<in> set captures_51. is_capture e"
    by (auto simp: captures_51_def is_capture_def)
  show l: "length captures_51 = 51" by (simp add: captures_51_def)
  then show "captures_51 \<noteq> []" by auto
  from a show "\<forall>e \<in> set (tl captures_51). is_capture e"
    by (metis list.set_sel(2) tl_Nil)
qed

lemma storage_0_facts: "\<not> denied storage_0" "accepts storage_0 k v"
  by (simp_all add: storage_0_def)

lemma load_save:
  "\<not> denied st \<Longrightarrow> accepts st STORAGE_KEY (JSON_stringify (take MAX_STORED_PHOTOS ps)) \<Longrightarrow>
   load_effect (save_effect ps st) = Loaded (take MAX_STORED_PHOTOS ps)"
  by (rule load_effect_items) (simp_all add: save_effect_fields save_effect_items)

lemma take_new_photos:
  "take (length (new_photos es)) (new_photos (e # es)) = new_photos es"
  by (cases e) simp_all

text \<open>
  Claim C1, as stated, fails: after 51 captures the store holds 51 photos, more than the
  limit.
\<close>

theorem memory_not_trimmed_counterexample:
  "length captures_51 = 51
   \<and> length (photos (fst (run captures_51 (initial_app, storage_0)))) = 51
   \<and> \<not> length (photos (fst (run captures_51 (initial_app, storage_0)))) \<le> MAX_STORED_PHOTOS"
  by (simp add: photos_run_captures captures_51_facts length_new_photos initial_app_def
      MAX_STORED_PHOTOS_def)

text \<open>
  Claim C1, amended. A capture puts the new photo in front of the sequence in memory, which
  is not trimmed: after a sequence of captures it holds every photo captured, the newest
  first, after the photos it held before. Only the persisted copy is trimmed: when local
  storage is accessible and accepts the write, it holds, after each capture, the text of the
  first 50 entries of the sequence in memory (at most 50 photos, the newest), and loading
  it gives back those entries.
\<close>

theorem capture_store_bound:
  assumes "\<forall>e \<in> set es. is_capture e" and "es \<noteq> []" and "\<not> denied st"
    and "accepts st STORAGE_KEY
           (JSON_stringify (take MAX_STORED_PHOTOS (photos (fst (run es (a, st))))))"
  shows "photos (fst (run es (a, st))) = new_photos es @ photos a
    \<and> length (photos (fst (run es (a, st)))) = length es + length (photos a)
    \<and> items (snd (run es (a, st))) STORAGE_KEY
        = Some (JSON_stringify (take MAX_STORED_PHOTOS (photos (fst (run es (a, st))))))
    \<and> load_effect (snd (run es (a, st)))
        = Loaded (take MAX_STORED_PHOTOS (photos (fst (run es (a, st)))))
    \<and> length (take MAX_STORED_PHOTOS (photos (fst (run es (a, st))))) \<le> 50"
proof -
  have 1: "photos (fst (run es (a, st))) = new_photos es @ photos a"
    using assms(1) by (rule photos_run_captures)
  have 2: "length (photos (fst (run es (a, st)))) = length es + length (photos a)"
    by (simp add: 1 length_new_photos [OF assms(1)])
  have 3: "items (snd (run es (a, st))) STORAGE_KEY
        = Some (JSON_stringify (take MAX_STORED_PHOTOS (photos (fst (run es (a, st))))))"
    using assms(2-4) by (rule run_items)
  have d: "\<not> denied (snd (run es (a, st)))"
    using run_fields [of es a st] assms(3) by simp
  have 4: "load_effect (snd (run es (a, st)))
        = Loaded (take MAX_STORED_PHOTOS (photos (fst (run es (a, st)))))"
    using d 3 by (rule load_effect_items)
  have 5: "length (take MAX_STORED_PHOTOS (photos (fst (run es (a, st))))) \<le> 50"
    by (simp add: MAX_STORED_PHOTOS_def)
  from 1 2 3 4 5 show ?thesis by blast
qed

text \<open>
  After 51 captures the store holds 51 photos, and its persisted form loads as the 50 most
  recent ones: the photo of the first capture is not among them.
\<close>

theorem capture_store_bound_witness:
  "list_all is_capture captures_51 \<and> captures_51 \<noteq> [] \<and> \<not> denied storage_0
   \<and> length (photos (fst (run captures_51 (initial_app, storage_0)))) = 51
   \<and> load_effect (snd (run captures_51 (initial_app, storage_0)))
        = Loaded (new_photos (tl captures_51))
   \<and> length (new_photos (tl captures_51)) = 50"
proof -
  note w = capture_store_bound [OF captures_51_facts(1) captures_51_facts(3) storage_0_facts(1)
      storage_0_facts(2), of initial_app]
  have l: "length (new_photos (tl captures_51)) = 50"
    by (simp add: length_new_photos [OF captures_51_facts(4)] captures_51_facts(2))
  have e: "captures_51 = hd captures_51 # tl captures_51"
    using captures_51_facts(3) by simp
  have "take 50 (new_photos captures_51) = new_photos (tl captures_51)"
    using take_new_photos [of "tl captures_51" "hd captures_51"] by (simp add: l e [symmetric])
  moreover from w have "photos (fst (run captures_51 (initial_app, storage_0)))
      = new_photos captures_51 @ photos initial_app"
    by blast
  ultimately have t: "take MAX_STORED_PHOTOS (photos (fst (run captures_51 (initial_app, storage_0))))
      = new_photos (tl captures_51)"
    by (simp add: MAX_STORED_PHOTOS_def initial_app_def)
  from w have "length (photos (fst (run captures_51 (initial_app, storage_0))))
      = length captures_51 + length (photos initial_app)"
    by blast
  then have 1: "length (photos (fst (run captures_51 (initial_app, storage_0)))) = 51"
    by (simp add: captures_51_facts(2) initial_app_def)
  from w have "load_effect (snd (run captures_51 (initial_app, storage_0)))
        = Loaded (take MAX_STORED_PHOTOS (photos (fst (run captures_51 (initial_app, storage_0)))))"
    by blast
  with t have 2: "load_effect (snd (run captures_51 (initial_app, storage_0)))
        = Loaded (new_photos (tl captures_51))"
    by simp
  have a: "list_all is_capture captures_51"
    using captures_51_facts(1) by (simp add: list_all_iff)
  from 1 2 l a captures_51_facts(3) storage_0_facts(1) show ?thesis by blast
qed

lemma run_captures_51:
  "length (photos (fst (run captures_51 (initial_app, storage_0)))) = 51"
  "load_effect (snd (run captures_51 (initial_app, storage_0)))
     = Loaded (take MAX_STORED_PHOTOS (photos (fst (run captures_51 (initial_app, storage_0)))))"
proof -
  show "length (photos (fst (run captures_51 (initial_app, storage_0)))) = 51"
    by (simp add: photos_run_captures captures_51_facts length_new_photos initial_app_def)
  have i: "items (snd (run captures_51 (initial_app, storage_0))) STORAGE_KEY
      = Some (JSON_stringify (take MAX_STORED_PHOTOS (photos (fst (run captures_51 (initial_app, storage_0))))))"
    by (rule run_items) (simp_all add: captures_51_facts storage_0_facts)
  have d: "\<not> denied (snd (run captures_51 (initial_app, storage_0)))"
    using run_fields [of captures_51 initial_app storage_0] by (simp add: storage_0_facts)
  from d i show "load_effect (snd (run captures_51 (initial_app, storage_0)))
     = Loaded (take MAX_STORED_PHOTOS (photos (fst (run captures_51 (initial_app, storage_0)))))"
    by (rule load_effect_items)
qed

text \<open>
  Claim C9, as stated, fails: after 51 captures, loading the persisted form does not
  reproduce the sequence of the store.
\<close>

theorem roundtrip_beyond_limit_counterexample:
  "load_effect (snd (run captures_51 (initial_app, storage_0)))
     \<noteq> Loaded (photos (fst (run captures_51 (initial_app, storage_0))))"
proof
  assume "load_effect (snd (run captures_51 (initial_app, storage_0)))
     = Loaded (photos (fst (run captures_51 (initial_app, storage_0))))"
  then have "take MAX_STORED_PHOTOS (photos (fst (run captures_51 (initial_app, storage_0))))
      = photos (fst (run captures_51 (initial_app, storage_0)))"
    by (simp add: run_captures_51(2))
  then have "length (take MAX_STORED_PHOTOS (photos (fst (run captures_51 (initial_app, storage_0)))))
      = 51"
    by (simp only: run_captures_51(1))
  then show False by (simp add: MAX_STORED_PHOTOS_def)
qed

text \<open>
  Claim C9, amended. For every sequence of captures and deletions, persisting the resulting
  store to an accessible local storage that accepts the write and then loading reproduces the
  first 50 entries of the sequence, in order and with all field values; it reproduces the
  whole sequence when the store holds at most 50 photos. The storage that the run itself
  leaves behind loads in the same way.
\<close>

theorem persist_load_roundtrip:
  assumes "\<not> denied st"
    and "accepts st STORAGE_KEY
           (JSON_stringify (take MAX_STORED_PHOTOS (photos (fst (run es (a0, st0))))))"
  shows "load_effect (save_effect (photos (fst (run es (a0, st0)))) st)
           = Loaded (take MAX_STORED_PHOTOS (photos (fst (run es (a0, st0)))))
    \<and> (length (photos (fst (run es (a0, st0)))) \<le> MAX_STORED_PHOTOS \<longrightarrow>
          load_effect (save_effect (photos (fst (run es (a0, st0)))) st)
            = Loaded (photos (fst (run es (a0, st0)))))
    \<and> (es \<noteq> [] \<and> st0 = st \<longrightarrow>
          load_effect (snd (run es (a0, st0)))
            = Loaded (take MAX_STORED_PHOTOS (photos (fst (run es (a0, st0))))))"
proof -
  have 1: "load_effect (save_effect (photos (fst (run es (a0, st0)))) st)
           = Loaded (take MAX_STORED_PHOTOS (photos (fst (run es (a0, st0)))))"
    using assms by (rule load_save)
  have 3: "load_effect (snd (run es (a0, st0)))
            = Loaded (take MAX_STORED_PHOTOS (photos (fst (run es (a0, st0)))))"
    if "es \<noteq> []" "st0 = st"
  proof -
    have d: "\<not> denied (snd (run es (a0, st0)))"
      using run_fields [of es a0 st0] assms(1) that(2) by simp
    have i: "items (snd (run es (a0, st0))) STORAGE_KEY
        = Some (JSON_stringify (take MAX_STORED_PHOTOS (photos (fst (run es (a0, st0))))))"
      using that assms by (intro run_items) simp_all
    from d i show ?thesis by (rule load_effect_items)
  qed
  from 1 3 show ?thesis by auto
qed

text \<open>
  The end-to-end scenario: capture A, capture B, delete A; the store holds B only, and
  loading what was persisted gives B only.
\<close>

lemma scenario_run:
  "photos (fst (run [Capture 1000 1000 1000 (js ''data:A''), Capture 2000 2000 2000 (js ''data:B''),
      Delete (js ''1000'')] (initial_app, storage_0))) = [photo_B]"
  by (simp add: run_Cons run_Nil dispatch.simps Let_def capture_at_simps handleDelete_simps
      initial_app_def photo_B_def Number_toString_1000 Number_toString_2000)
     (simp add: js_def)

theorem persist_load_roundtrip_witness:
  "\<not> denied storage_0
   \<and> photos (fst (run [Capture 1000 1000 1000 (js ''data:A''), Capture 2000 2000 2000 (js ''data:B''),
      Delete (js ''1000'')] (initial_app, storage_0))) = [photo_B]
   \<and> load_effect (snd (run [Capture 1000 1000 1000 (js ''data:A''),
      Capture 2000 2000 2000 (js ''data:B''), Delete (js ''1000'')] (initial_app, storage_0)))
       = Loaded [photo_B]
   \<and> load_effect (save_effect [photo_B] storage_0) = Loaded [photo_B]"
proof -
  note w = persist_load_roundtrip [OF storage_0_facts(1) storage_0_facts(2),
      of "[Capture 1000 1000 1000 (js ''data:A''), Capture 2000 2000 2000 (js ''data:B''),
          Delete (js ''1000'')]" initial_app storage_0]
  from w have 1: "load_effect (snd (run [Capture 1000 1000 1000 (js ''data:A''),
      Capture 2000 2000 2000 (js ''data:B''), Delete (js ''1000'')] (initial_app, storage_0)))
       = Loaded [photo_B]"
    by (simp add: scenario_run MAX_STORED_PHOTOS_def)
  from w have 2: "load_effect (save_effect [photo_B] storage_0) = Loaded [photo_B]"
    by (simp add: scenario_run MAX_STORED_PHOTOS_def)
  from 1 2 scenario_run storage_0_facts(1) show ?thesis by blast
qed

section \<open>Loading\<close>

lemma mount_Unchanged:
  "load_effect st = Unchanged \<Longrightarrow> mount st = Mounted initial_app (save_effect [] st)"
  by (simp add: mount_def)

lemma mount_Loaded:
  "load_effect st = Loaded ps \<Longrightarrow>
   mount st = Mounted (initial_app\<lparr>photos := ps\<rparr>) (save_effect [] st)"
  by (simp add: mount_def)

lemma photo_of_json_members:
  "map_of ms (js ''id'') = Some (JString i) \<Longrightarrow>
   map_of ms (js ''dataUrl'') = Some (JString d) \<Longrightarrow>
   map_of ms (js ''timestamp'') = Some (JNumber (of_int t)) \<Longrightarrow>
   photo_of_json (JObject ms) = Some \<lparr>id_photo = i, dataUrl = d, timestamp = t\<rparr>"
  by (simp add: photo_of_json_def as_string_def as_integer_def)

lemma getItem_storage_of: "getItem (storage_of s) STORAGE_KEY = Inr (Some s)"
  by (simp add: getItem_def storage_of_def storage_0_def)

lemma JSON_parse_null: "JSON_parse (js ''null'') = Inr JNull"
  by code_simp

lemma JSON_parse_truncated: "JSON_parse (js ''[{\"id\":\"10'') = Inl SyntaxError"
  by code_simp

lemma JSON_parse_reordered:
  "JSON_parse (js ''[ {\"timestamp\":7, \"tag\":null, \"dataUrl\":\"x\", \"id\":\"7\"} ]'')
     = Inr (JArray [JObject [(js ''timestamp'', JNumber 7), (js ''tag'', JNull),
                             (js ''dataUrl'', JString (js ''x'')), (js ''id'', JString (js ''7''))]])"
  by code_simp

lemma photos_of_json_reordered:
  "photos_of_json (JArray [JObject [(js ''timestamp'', JNumber 7), (js ''tag'', JNull),
                             (js ''dataUrl'', JString (js ''x'')), (js ''id'', JString (js ''7''))]])
     = Some [\<lparr>id_photo = js ''7'', dataUrl = js ''x'', timestamp = 7\<rparr>]"
proof -
  have "photo_of_json (JObject [(js ''timestamp'', JNumber 7), (js ''tag'', JNull),
                             (js ''dataUrl'', JString (js ''x'')), (js ''id'', JString (js ''7''))])
      = Some \<lparr>id_photo = js ''7'', dataUrl = js ''x'', timestamp = 7\<rparr>"
    by (rule photo_of_json_members [where t = 7, simplified]) (simp_all add: js_def)
  then show ?thesis by (simp add: photos_of_json_def)
qed

text \<open>
  Claim C7, as stated, fails. The text \<^verbatim>\<open>null\<close> is not a photo sequence, but it parses:
  the load effect stores the parsed value instead of leaving the empty sequence, and the
  render that follows throws a \<^verbatim>\<open>TypeError\<close> at \<^verbatim>\<open>photos.length\<close>.
\<close>

theorem load_null_counterexample:
  "getItem (storage_of (js ''null'')) STORAGE_KEY = Inr (Some (js ''null''))
   \<and> JSON_parse (js ''null'') = Inr JNull
   \<and> load_effect (storage_of (js ''null'')) = Foreign JNull
   \<and> load_effect (storage_of (js ''null'')) \<noteq> Unchanged
   \<and> photos_length JNull = Inl TypeError
   \<and> mount (storage_of (js ''null'')) = Crashed TypeError (save_effect [] (storage_of (js ''null'')))"
proof -
  have ne: "js ''null'' \<noteq> []" by (simp add: js_def)
  have l: "load_effect (storage_of (js ''null'')) = Foreign JNull"
    by (simp add: load_effect_def getItem_storage_of ne JSON_parse_null photos_of_json_def)
  have p: "photos_length JNull = Inl TypeError" by (simp add: photos_length_def)
  have m: "mount (storage_of (js ''null'')) = Crashed TypeError (save_effect [] (storage_of (js ''null'')))"
    by (simp add: mount_def l p)
  from getItem_storage_of JSON_parse_null l p m show ?thesis by simp
qed

text \<open>
  Claim C7, amended. When local storage cannot be read, holds nothing or the empty string
  under the key, or holds a text that does not parse, the load effect does not set the
  state: \<open>photos\<close> stays the empty sequence and no error surfaces. A text that parses is
  stored as parsed, without a check of its shape, and never replaced by the empty sequence.
  When the parsed value is an array of photo objects (a string \<^verbatim>\<open>id\<close>, a string
  \<^verbatim>\<open>dataUrl\<close> and an integer \<^verbatim>\<open>timestamp\<close> of magnitude at most \<open>2^53\<close>, in any order of
  the members), as the persisted form of a photo sequence is, the store is that sequence,
  in order.
\<close>

theorem load_effect_cases:
  "(getItem st STORAGE_KEY = Inl e \<or> getItem st STORAGE_KEY = Inr None
      \<or> getItem st STORAGE_KEY = Inr (Some []) \<longrightarrow>
      load_effect st = Unchanged \<and> mount st = Mounted initial_app (save_effect [] st))
   \<and> (getItem st STORAGE_KEY = Inr (Some s) \<and> JSON_parse s = Inl e' \<longrightarrow>
      load_effect st = Unchanged \<and> mount st = Mounted initial_app (save_effect [] st))
   \<and> (getItem st STORAGE_KEY = Inr (Some s) \<and> s \<noteq> [] \<and> JSON_parse s = Inr v \<longrightarrow>
      load_effect st \<noteq> Unchanged
      \<and> (photos_of_json v = None \<longrightarrow> load_effect st = Foreign v))
   \<and> (getItem st STORAGE_KEY = Inr (Some s) \<and> s \<noteq> [] \<and> JSON_parse s = Inr v
        \<and> photos_of_json v = Some ps' \<and> list_all (\<lambda>p. safe_integer (timestamp p)) ps' \<longrightarrow>
      load_effect st = Loaded ps'
      \<and> mount st = Mounted (initial_app\<lparr>photos := ps'\<rparr>) (save_effect [] st))
   \<and> (getItem st STORAGE_KEY = Inr (Some (JSON_stringify ps))
        \<and> list_all (\<lambda>p. safe_integer (timestamp p)) ps \<longrightarrow>
      load_effect st = Loaded ps
      \<and> mount st = Mounted (initial_app\<lparr>photos := ps\<rparr>) (save_effect [] st))
   \<and> (map_of ms (js ''id'') = Some (JString i) \<and> map_of ms (js ''dataUrl'') = Some (JString d)
        \<and> map_of ms (js ''timestamp'') = Some (JNumber (of_int t)) \<longrightarrow>
      photo_of_json (JObject ms) = Some \<lparr>id_photo = i, dataUrl = d, timestamp = t\<rparr>)"
proof (intro conjI impI)
  assume "getItem st STORAGE_KEY = Inl e \<or> getItem st STORAGE_KEY = Inr None
      \<or> getItem st STORAGE_KEY = Inr (Some [])"
  then show u: "load_effect st = Unchanged" by (auto simp: load_effect_def)
  then show "mount st = Mounted initial_app (save_effect [] st)" by (rule mount_Unchanged)
next
  assume "getItem st STORAGE_KEY = Inr (Some s) \<and> JSON_parse s = Inl e'"
  then show u: "load_effect st = Unchanged" by (simp add: load_effect_def)
  then show "mount st = Mounted initial_app (save_effect [] st)" by (rule mount_Unchanged)
next
  assume a: "getItem st STORAGE_KEY = Inr (Some s) \<and> s \<noteq> [] \<and> JSON_parse s = Inr v"
  then show "load_effect st \<noteq> Unchanged"
    by (simp add: load_effect_def split: option.splits)
  assume "photos_of_json v = None"
  with a show "load_effect st = Foreign v" by (simp add: load_effect_def)
next
  assume "getItem st STORAGE_KEY = Inr (Some s) \<and> s \<noteq> [] \<and> JSON_parse s = Inr v
        \<and> photos_of_json v = Some ps' \<and> list_all (\<lambda>p. safe_integer (timestamp p)) ps'"
  then show l: "load_effect st = Loaded ps'" by (simp add: load_effect_def)
  then show "mount st = Mounted (initial_app\<lparr>photos := ps'\<rparr>) (save_effect [] st)"
    by (rule mount_Loaded)
next
  assume "getItem st STORAGE_KEY = Inr (Some (JSON_stringify ps))
        \<and> list_all (\<lambda>p. safe_integer (timestamp p)) ps"
  then show l: "load_effect st = Loaded ps"
    by (simp add: load_effect_def JSON_stringify_nonempty JSON_parse_stringify
        photos_of_json_roundtrip)
  then show "mount st = Mounted (initial_app\<lparr>photos := ps\<rparr>) (save_effect [] st)"
    by (rule mount_Loaded)
next
  assume "map_of ms (js ''id'') = Some (JString i) \<and> map_of ms (js ''dataUrl'') = Some (JString d)
        \<and> map_of ms (js ''timestamp'') = Some (JNumber (of_int t))"
  then show "photo_of_json (JObject ms) = Some \<lparr>id_photo = i, dataUrl = d, timestamp = t\<rparr>"
    by (simp add: photo_of_json_members)
qed

text \<open>
  With an empty storage, with a storage that refuses access and with a truncated text the
  state stays empty; the text \<^verbatim>\<open>null\<close> is stored as parsed; the persisted form of the
  scenario's store loads as that store; a photo array with white space, another order of the
  members and a further member loads as its photo.
\<close>

theorem load_effect_cases_witness:
  "getItem storage_0 STORAGE_KEY = Inr None
   \<and> load_effect storage_0 = Unchanged
   \<and> mount storage_0 = Mounted initial_app (save_effect [] storage_0)
   \<and> getItem (storage_0\<lparr>denied := True\<rparr>) STORAGE_KEY = Inl SecurityError
   \<and> load_effect (storage_0\<lparr>denied := True\<rparr>) = Unchanged
   \<and> JSON_parse (js ''[{\"id\":\"10'') = Inl SyntaxError
   \<and> load_effect (storage_of (js ''[{\"id\":\"10'')) = Unchanged
   \<and> mount (storage_of (js ''[{\"id\":\"10'')) = Mounted initial_app (save_effect [] (storage_of (js ''[{\"id\":\"10'')))
   \<and> JSON_parse (js ''null'') = Inr JNull \<and> photos_of_json JNull = None
   \<and> load_effect (storage_of (js ''null'')) = Foreign JNull
   \<and> list_all (\<lambda>p. safe_integer (timestamp p)) [photo_B, photo_A]
   \<and> load_effect (storage_of (JSON_stringify [photo_B, photo_A])) = Loaded [photo_B, photo_A]
   \<and> mount (storage_of (JSON_stringify [photo_B, photo_A]))
        = Mounted (initial_app\<lparr>photos := [photo_B, photo_A]\<rparr>)
            (save_effect [] (storage_of (JSON_stringify [photo_B, photo_A])))
   \<and> load_effect (storage_of (js ''[ {\"timestamp\":7, \"tag\":null, \"dataUrl\":\"x\", \"id\":\"7\"} ]''))
        = Loaded [\<lparr>id_photo = js ''7'', dataUrl = js ''x'', timestamp = 7\<rparr>]
   \<and> photo_of_json (JObject [(js ''timestamp'', JNumber 7), (js ''tag'', JNull), (js ''dataUrl'', JString (js ''x'')), (js ''id'', JString (js ''7''))])
        = Some \<lparr>id_photo = js ''7'', dataUrl = js ''x'', timestamp = 7\<rparr>"
proof -
  have g0: "getItem storage_0 STORAGE_KEY = Inr None"
    by (simp add: getItem_def storage_0_def)
  have g1: "getItem (storage_0\<lparr>denied := True\<rparr>) STORAGE_KEY = Inl SecurityError"
    by (simp add: getItem_def)
  have ne: "js ''[ {\"timestamp\":7, \"tag\":null, \"dataUrl\":\"x\", \"id\":\"7\"} ]'' \<noteq> []" "js ''null'' \<noteq> []"
    by (simp_all add: js_def)
  have pn: "photos_of_json JNull = None" by (simp add: photos_of_json_def)
  have sa: "list_all (\<lambda>p. safe_integer (timestamp p)) [photo_B, photo_A]"
    by (simp add: safe_integer_def photo_A_def photo_B_def)
  have s7: "list_all (\<lambda>p. safe_integer (timestamp p)) [\<lparr>id_photo = js ''7'', dataUrl = js ''x'', timestamp = 7\<rparr>]"
    by (simp add: safe_integer_def)
  have m7: "map_of [(js ''timestamp'', JNumber 7), (js ''tag'', JNull), (js ''dataUrl'', JString (js ''x'')), (js ''id'', JString (js ''7''))] (js ''id'') = Some (JString (js ''7''))"
    "map_of [(js ''timestamp'', JNumber 7), (js ''tag'', JNull), (js ''dataUrl'', JString (js ''x'')), (js ''id'', JString (js ''7''))] (js ''dataUrl'') = Some (JString (js ''x''))"
    "map_of [(js ''timestamp'', JNumber 7), (js ''tag'', JNull), (js ''dataUrl'', JString (js ''x'')), (js ''id'', JString (js ''7''))] (js ''timestamp'') = Some (JNumber (of_int 7))"
    by (simp_all add: js_def)
  note w = load_effect_cases [where e = SecurityError and e' = SyntaxError]
  from w [of storage_0 "[]" JNull "[]" "[]" "[]" "[]" "[]" 0] g0
  have 1: "load_effect storage_0 = Unchanged
    \<and> mount storage_0 = Mounted initial_app (save_effect [] storage_0)"
    by blast
  from w [of "storage_0\<lparr>denied := True\<rparr>" "[]" JNull "[]" "[]" "[]" "[]" "[]" 0] g1
  have 2: "load_effect (storage_0\<lparr>denied := True\<rparr>) = Unchanged"
    by blast
  from w [of "storage_of (js ''[{\"id\":\"10'')" "js ''[{\"id\":\"10''" JNull "[]" "[]" "[]" "[]" "[]" 0]
    getItem_storage_of JSON_parse_truncated
  have 3: "load_effect (storage_of (js ''[{\"id\":\"10'')) = Unchanged
    \<and> mount (storage_of (js ''[{\"id\":\"10'')) = Mounted initial_app (save_effect [] (storage_of (js ''[{\"id\":\"10'')))"
    by blast
  from w [of "storage_of (js ''null'')" "js ''null''" JNull "[]" "[]" "[]" "[]" "[]" 0]
    getItem_storage_of JSON_parse_null ne(2) pn
  have 4: "load_effect (storage_of (js ''null'')) = Foreign JNull"
    by blast
  from w [of "storage_of (JSON_stringify [photo_B, photo_A])" "[]" JNull "[]" "[photo_B, photo_A]"
      "[]" "[]" "[]" 0] getItem_storage_of sa
  have 5: "load_effect (storage_of (JSON_stringify [photo_B, photo_A])) = Loaded [photo_B, photo_A]
    \<and> mount (storage_of (JSON_stringify [photo_B, photo_A]))
        = Mounted (initial_app\<lparr>photos := [photo_B, photo_A]\<rparr>)
            (save_effect [] (storage_of (JSON_stringify [photo_B, photo_A])))"
    by blast
  from w [of "storage_of (js ''[ {\"timestamp\":7, \"tag\":null, \"dataUrl\":\"x\", \"id\":\"7\"} ]'')" "js ''[ {\"timestamp\":7, \"tag\":null, \"dataUrl\":\"x\", \"id\":\"7\"} ]''" "JArray [JObject [(js ''timestamp'', JNumber 7), (js ''tag'', JNull), (js ''dataUrl'', JString (js ''x'')), (js ''id'', JString (js ''7''))]]" "[\<lparr>id_photo = js ''7'', dataUrl = js ''x'', timestamp = 7\<rparr>]" "[]" "[]" "[]" "[]" 0]
    getItem_storage_of JSON_parse_reordered ne(1) photos_of_json_reordered s7
  have 6: "load_effect (storage_of (js ''[ {\"timestamp\":7, \"tag\":null, \"dataUrl\":\"x\", \"id\":\"7\"} ]'')) = Loaded [\<lparr>id_photo = js ''7'', dataUrl = js ''x'', timestamp = 7\<rparr>]"
    by blast
  from w [of storage_0 "[]" JNull "[]" "[]" "[(js ''timestamp'', JNumber 7), (js ''tag'', JNull), (js ''dataUrl'', JString (js ''x'')), (js ''id'', JString (js ''7''))]" "js ''7''" "js ''x''" 7] m7
  have 7: "photo_of_json (JObject [(js ''timestamp'', JNumber 7), (js ''tag'', JNull), (js ''dataUrl'', JString (js ''x'')), (js ''id'', JString (js ''7''))]) = Some \<lparr>id_photo = js ''7'', dataUrl = js ''x'', timestamp = 7\<rparr>"
    by blast
  from g0 g1 1 2 3 4 5 6 7 sa pn JSON_parse_truncated JSON_parse_null show ?thesis by blast
qed

end
